theory Spec2Isabelle
  imports Main
begin

section \<open>JavaScript strings\<close>

text \<open>
  A JavaScript string is modelled as a \<^typ>\<open>string\<close>: the list of its code units, for
  texts whose code units are below 256.  On that range \<^verbatim>\<open>\s\<close> holds of seven characters,
  \<^verbatim>\<open>toLowerCase\<close> moves the letters A-Z and the upper-case letters of Latin-1, and
  the \<^verbatim>\<open>i\<close> flag of a regular expression whose pattern is written in ASCII only
  identifies a-z with A-Z.
\<close>

definition ascii_upper :: string where
  "ascii_upper = ''ABCDEFGHIJKLMNOPQRSTUVWXYZ''"

definition ascii_lower :: string where
  "ascii_lower = ''abcdefghijklmnopqrstuvwxyz''"

definition latin1_upper :: string where
  "latin1_upper = [CHR 0xC0, CHR 0xC1, CHR 0xC2, CHR 0xC3, CHR 0xC4, CHR 0xC5, CHR 0xC6, CHR 0xC7,
                   CHR 0xC8, CHR 0xC9, CHR 0xCA, CHR 0xCB, CHR 0xCC, CHR 0xCD, CHR 0xCE, CHR 0xCF,
                   CHR 0xD0, CHR 0xD1, CHR 0xD2, CHR 0xD3, CHR 0xD4, CHR 0xD5, CHR 0xD6,
                   CHR 0xD8, CHR 0xD9, CHR 0xDA, CHR 0xDB, CHR 0xDC, CHR 0xDD, CHR 0xDE]"

definition latin1_lower :: string where
  "latin1_lower = [CHR 0xE0, CHR 0xE1, CHR 0xE2, CHR 0xE3, CHR 0xE4, CHR 0xE5, CHR 0xE6, CHR 0xE7,
                   CHR 0xE8, CHR 0xE9, CHR 0xEA, CHR 0xEB, CHR 0xEC, CHR 0xED, CHR 0xEE, CHR 0xEF,
                   CHR 0xF0, CHR 0xF1, CHR 0xF2, CHR 0xF3, CHR 0xF4, CHR 0xF5, CHR 0xF6,
                   CHR 0xF8, CHR 0xF9, CHR 0xFA, CHR 0xFB, CHR 0xFC, CHR 0xFD, CHR 0xFE]"

definition is_space :: "char \<Rightarrow> bool" where
  "is_space c = (c \<in> set [CHR 0x09, CHR 0x0A, CHR 0x0B, CHR 0x0C, CHR 0x0D, CHR 0x20, CHR 0xA0])"

definition is_upper :: "char \<Rightarrow> bool" where
  "is_upper c = (c \<in> set ascii_upper)"

definition is_lower :: "char \<Rightarrow> bool" where
  "is_lower c = (c \<in> set ascii_lower)"

definition is_digit :: "char \<Rightarrow> bool" where
  "is_digit c = (c \<in> set ''0123456789'')"

definition is_word :: "char \<Rightarrow> bool" where
  "is_word c = (is_upper c \<or> is_lower c \<or> is_digit c \<or> c = CHR ''_'')"

definition line_term :: "char \<Rightarrow> bool" where
  "line_term c = (c = CHR 0x0A \<or> c = CHR 0x0D)"

definition lower_char :: "char \<Rightarrow> char" where
  "lower_char c = (case map_of (zip (ascii_upper @ latin1_upper) (ascii_lower @ latin1_lower)) c of
                     Some d \<Rightarrow> d | None \<Rightarrow> c)"

definition upper_ascii :: "char \<Rightarrow> char" where
  "upper_ascii c = (case map_of (zip ascii_lower ascii_upper) c of Some d \<Rightarrow> d | None \<Rightarrow> c)"

lemmas char_tables = is_space_def is_upper_def is_lower_def is_digit_def lower_char_def
  upper_ascii_def ascii_upper_def ascii_lower_def latin1_upper_def latin1_lower_def

text \<open>The same functions on the eight bits of a character, for evaluation.\<close>

lemma is_upper_code [code]:
  "is_upper (Char b0 b1 b2 b3 b4 b5 b6 b7) =
     (\<not> b7 \<and> b6 \<and> \<not> b5 \<and> (b0 \<or> b1 \<or> b2 \<or> b3 \<or> b4) \<and> \<not> (b4 \<and> b3 \<and> (b2 \<or> (b1 \<and> b0))))"
  by (cases b0; cases b1; cases b2; cases b3; cases b4; cases b5; cases b6; cases b7)
     (simp_all add: char_tables)

lemma is_lower_code [code]:
  "is_lower (Char b0 b1 b2 b3 b4 b5 b6 b7) =
     (\<not> b7 \<and> b6 \<and> b5 \<and> (b0 \<or> b1 \<or> b2 \<or> b3 \<or> b4) \<and> \<not> (b4 \<and> b3 \<and> (b2 \<or> (b1 \<and> b0))))"
  by (cases b0; cases b1; cases b2; cases b3; cases b4; cases b5; cases b6; cases b7)
     (simp_all add: char_tables)

lemma is_digit_code [code]:
  "is_digit (Char b0 b1 b2 b3 b4 b5 b6 b7) =
     (\<not> b7 \<and> \<not> b6 \<and> b5 \<and> b4 \<and> \<not> (b3 \<and> (b2 \<or> b1)))"
  by (cases b0; cases b1; cases b2; cases b3; cases b4; cases b5; cases b6; cases b7)
     (simp_all add: char_tables)

lemma is_space_code [code]:
  "is_space (Char b0 b1 b2 b3 b4 b5 b6 b7) =
     (\<not> b6 \<and> \<not> b4 \<and>
      (if b5 then \<not> b0 \<and> \<not> b1 \<and> \<not> b2 \<and> \<not> b3
       else \<not> b7 \<and> b3 \<and> (if b2 then \<not> b1 else b1 \<or> b0)))"
  by (cases b0; cases b1; cases b2; cases b3; cases b4; cases b5; cases b6; cases b7)
     (simp_all add: char_tables)

lemma lower_char_code [code]:
  "lower_char (Char b0 b1 b2 b3 b4 b5 b6 b7) =
     (if b6 \<and> \<not> b5 \<and>
         (if b7 then \<not> (b0 \<and> b1 \<and> b2 \<and> b4)
          else (b0 \<or> b1 \<or> b2 \<or> b3 \<or> b4) \<and> \<not> (b4 \<and> b3 \<and> (b2 \<or> (b1 \<and> b0))))
      then Char b0 b1 b2 b3 b4 True b6 b7 else Char b0 b1 b2 b3 b4 b5 b6 b7)"
  by (cases b0; cases b1; cases b2; cases b3; cases b4; cases b5; cases b6; cases b7)
     (simp_all add: char_tables)

lemma upper_ascii_code [code]:
  "upper_ascii (Char b0 b1 b2 b3 b4 b5 b6 b7) =
     (if b6 \<and> b5 \<and> \<not> b7 \<and> (b0 \<or> b1 \<or> b2 \<or> b3 \<or> b4) \<and> \<not> (b4 \<and> b3 \<and> (b2 \<or> (b1 \<and> b0)))
      then Char b0 b1 b2 b3 b4 False b6 b7 else Char b0 b1 b2 b3 b4 b5 b6 b7)"
  by (cases b0; cases b1; cases b2; cases b3; cases b4; cases b5; cases b6; cases b7)
     (simp_all add: char_tables)

definition toLowerCase :: "string \<Rightarrow> string" where
  "toLowerCase s = map lower_char s"

definition trimStart :: "string \<Rightarrow> string" where
  "trimStart s = dropWhile is_space s"

definition trimEnd :: "string \<Rightarrow> string" where
  "trimEnd s = rev (dropWhile is_space (rev s))"

definition trim :: "string \<Rightarrow> string" where
  "trim s = trimEnd (trimStart s)"

fun startsWith :: "string \<Rightarrow> string \<Rightarrow> bool" where
  "startsWith s [] = True"
| "startsWith [] (p # ps) = False"
| "startsWith (c # cs) (p # ps) = (c = p \<and> startsWith cs ps)"

fun str_includes :: "string \<Rightarrow> string \<Rightarrow> bool" where
  "str_includes [] p = (p = [])"
| "str_includes (c # cs) p = (startsWith (c # cs) p \<or> str_includes cs p)"

fun join :: "string \<Rightarrow> string list \<Rightarrow> string" where
  "join sep [] = []"
| "join sep [x] = x"
| "join sep (x # y # ys) = x @ sep @ join sep (y # ys)"

section \<open>Regular expressions\<close>

text \<open>
  The patterns of the program are written in the syntax below and run by a backtracking
  matcher that follows the ECMAScript semantics: a matcher maps a state (the text already
  consumed, newest character first; the text still to read; the captures) to the list of
  states in which a match of the pattern may end, in the order in which backtracking would try
  them.  The head of the list is the match the engine reports.
\<close>

datatype citem = CChar char | CUpper | CLower | CDigit | CSpace | CNonSpace | CWord

datatype rx =
    Eps
  | Lit string
  | Cls "citem list"
  | Dot
  | Seq rx rx
  | Alt rx rx
  | Star rx
  | StarL rx
  | Opt rx
  | Grp nat rx
  | Bol
  | Eol
  | Wb
  | Ahead rx
  | Behind rx

type_synonym caps = "string option list"
type_synonym mstate = "string \<times> string \<times> caps"

definition char_eq :: "bool \<Rightarrow> char \<Rightarrow> char \<Rightarrow> bool" where
  "char_eq ic p c = (p = c \<or> (ic \<and> upper_ascii p = upper_ascii c))"

fun citem_has :: "bool \<Rightarrow> citem \<Rightarrow> char \<Rightarrow> bool" where
  "citem_has ic (CChar p) c = char_eq ic p c"
| "citem_has ic CUpper c = (is_upper c \<or> (ic \<and> is_lower c))"
| "citem_has ic CLower c = (is_lower c \<or> (ic \<and> is_upper c))"
| "citem_has ic CDigit c = is_digit c"
| "citem_has ic CSpace c = is_space c"
| "citem_has ic CNonSpace c = (\<not> is_space c)"
| "citem_has ic CWord c = is_word c"

definition cls_has :: "bool \<Rightarrow> citem list \<Rightarrow> char \<Rightarrow> bool" where
  "cls_has ic items c = list_ex (\<lambda>i. citem_has ic i c) items"

fun lit_match :: "bool \<Rightarrow> string \<Rightarrow> string \<Rightarrow> string \<Rightarrow> (string \<times> string) option" where
  "lit_match ic [] l r = Some (l, r)"
| "lit_match ic (p # ps) l [] = None"
| "lit_match ic (p # ps) l (c # cs) =
     (if char_eq ic p c then lit_match ic ps (c # l) cs else None)"

definition at_wb :: "string \<Rightarrow> string \<Rightarrow> bool" where
  "at_wb l r = ((case l of [] \<Rightarrow> False | a # _ \<Rightarrow> is_word a) \<noteq>
                (case r of [] \<Rightarrow> False | b # _ \<Rightarrow> is_word b))"

function rxm :: "bool \<Rightarrow> rx \<Rightarrow> mstate \<Rightarrow> mstate list" where
  "rxm ic Eps s = [s]"
| "rxm ic (Lit w) (l, r, cp) =
     (case lit_match ic w l r of None \<Rightarrow> [] | Some (l', r') \<Rightarrow> [(l', r', cp)])"
| "rxm ic (Cls items) (l, r, cp) =
     (case r of [] \<Rightarrow> [] | c # cs \<Rightarrow> if cls_has ic items c then [(c # l, cs, cp)] else [])"
| "rxm ic Dot (l, r, cp) =
     (case r of [] \<Rightarrow> [] | c # cs \<Rightarrow> if line_term c then [] else [(c # l, cs, cp)])"
| "rxm ic (Seq a b) s = concat (map (rxm ic b) (rxm ic a s))"
| "rxm ic (Alt a b) s = rxm ic a s @ rxm ic b s"
| "rxm ic (Star a) s =
     concat (map (\<lambda>s'. if length (fst (snd s')) < length (fst (snd s))
                         then rxm ic (Star a) s' else [])
                 (rxm ic a s)) @ [s]"
| "rxm ic (StarL a) s =
     s # concat (map (\<lambda>s'. if length (fst (snd s')) < length (fst (snd s))
                             then rxm ic (StarL a) s' else [])
                     (rxm ic a s))"
| "rxm ic (Opt a) s = rxm ic a s @ [s]"
| "rxm ic (Grp n a) (l, r, cp) =
     map (\<lambda>(l', r', cp'). (l', r', cp'[n := Some (take (length r - length r') r)]))
         (rxm ic a (l, r, cp))"
| "rxm ic Bol (l, r, cp) = (if l = [] then [(l, r, cp)] else [])"
| "rxm ic Eol (l, r, cp) = (if r = [] then [(l, r, cp)] else [])"
| "rxm ic Wb (l, r, cp) = (if at_wb l r then [(l, r, cp)] else [])"
| "rxm ic (Ahead a) (l, r, cp) =
     (case rxm ic a (l, r, cp) of [] \<Rightarrow> [] | (l', r', cp') # _ \<Rightarrow> [(l, r, cp')])"
| "rxm ic (Behind a) (l, r, cp) =
     (if list_ex (\<lambda>k. list_ex (\<lambda>s'. length (fst (snd s')) = length r)
                               (rxm ic a (drop k l, rev (take k l) @ r, cp)))
                 [0 ..< Suc (length l)]
      then [(l, r, cp)] else [])"
  by pat_completeness auto
termination
  by (relation "measures [\<lambda>(ic, a, s). size a, \<lambda>(ic, a, s). length (fst (snd s))]") auto

declare rxm.simps(7,8) [simp del]

definition Plus :: "rx \<Rightarrow> rx" where
  "Plus a = Seq a (Star a)"

definition PlusL :: "rx \<Rightarrow> rx" where
  "PlusL a = Seq a (StarL a)"

definition ws :: rx where
  "ws = Cls [CSpace]"

fun seqs :: "rx list \<Rightarrow> rx" where
  "seqs [] = Eps"
| "seqs [a] = a"
| "seqs (a # b # bs) = Seq a (seqs (b # bs))"

fun alts :: "rx list \<Rightarrow> rx" where
  "alts [] = Cls []"
| "alts [a] = a"
| "alts (a # b # bs) = Alt a (alts (b # bs))"

record regexp =
  pat :: rx
  icase :: bool
  ngroups :: nat

record rmatch =
  before :: string
  matched :: string
  groups :: caps
  after :: string

definition match_here :: "regexp \<Rightarrow> string \<Rightarrow> string \<Rightarrow> rmatch option" where
  "match_here re l r =
     (case rxm (icase re) (pat re) (l, r, replicate (Suc (ngroups re)) None) of
        [] \<Rightarrow> None
      | (l', r', cp) # _ \<Rightarrow>
          Some \<lparr>before = rev l, matched = take (length r - length r') r, groups = cp,
                after = r'\<rparr>)"

fun search :: "regexp \<Rightarrow> string \<Rightarrow> string \<Rightarrow> rmatch option" where
  "search re l [] = match_here re l []"
| "search re l (c # cs) =
     (case match_here re l (c # cs) of Some m \<Rightarrow> Some m | None \<Rightarrow> search re (c # l) cs)"


subsection \<open>The matcher reads the text from left to right\<close>

lemma lit_match_shape:
  "lit_match ic w l r = Some (l', r') \<Longrightarrow> \<exists>u. r = u @ r' \<and> l' = rev u @ l \<and> length u = length w"
proof (induction ic w l r rule: lit_match.induct)
  case (1 ic l r)
  then show ?case by simp
next
  case (2 ic p ps l)
  then show ?case by simp
next
  case (3 ic p ps l c cs)
  then show ?case
    by (cases "char_eq ic p c") (auto simp: Cons_eq_append_conv)
qed

definition extends :: "mstate \<Rightarrow> mstate \<Rightarrow> bool" where
  "extends s s' = (\<exists>u. fst (snd s) = u @ fst (snd s') \<and> fst s' = rev u @ fst s)"

lemma extends_refl: "extends s s"
  by (simp add: extends_def)

lemma extends_trans: "extends s t \<Longrightarrow> extends t u \<Longrightarrow> extends s u"
  by (auto simp: extends_def)

lemma rxm_extends: "s' \<in> set (rxm ic a s) \<Longrightarrow> extends s s'"
proof (induction ic a s arbitrary: s' rule: rxm.induct)
  case (1 ic s)
  then show ?case by (simp add: extends_refl)
next
  case (2 ic w l r cp)
  then obtain l' r' where "lit_match ic w l r = Some (l', r')" "s' = (l', r', cp)"
    by (cases "lit_match ic w l r") auto
  then show ?case
    using lit_match_shape by (fastforce simp: extends_def)
next
  case (3 ic items l r cp)
  then show ?case by (auto simp: extends_def split: list.splits if_splits)
next
  case (4 ic l r cp)
  then show ?case by (auto simp: extends_def split: list.splits if_splits)
next
  case (5 ic a b s)
  from "5.prems" obtain t where t: "t \<in> set (rxm ic a s)" "s' \<in> set (rxm ic b t)"
    by auto
  from "5.IH"(1)[OF t(1)] "5.IH"(2)[OF t] show ?case
    by (rule extends_trans)
next
  case (6 ic a b s)
  then show ?case by (cases s') auto
next
  case (7 ic a s)
  from "7.prems" consider "s' = s"
    | t where "t \<in> set (rxm ic a s)" "length (fst (snd t)) < length (fst (snd s))"
        "s' \<in> set (rxm ic (Star a) t)"
    by (subst (asm) rxm.simps(7)) (auto split: if_splits)
  then show ?case
  proof cases
    case 1
    then show ?thesis by (simp add: extends_refl)
  next
    case 2
    from "7.IH"(1)[OF 2(1)] "7.IH"(2)[OF 2] show ?thesis
      by (rule extends_trans)
  qed
next
  case (8 ic a s)
  from "8.prems" consider "s' = s"
    | t where "t \<in> set (rxm ic a s)" "length (fst (snd t)) < length (fst (snd s))"
        "s' \<in> set (rxm ic (StarL a) t)"
    by (subst (asm) rxm.simps(8)) (auto split: if_splits)
  then show ?case
  proof cases
    case 1
    then show ?thesis by (simp add: extends_refl)
  next
    case 2
    from "8.IH"(1)[OF 2(1)] "8.IH"(2)[OF 2] show ?thesis
      by (rule extends_trans)
  qed
next
  case (9 ic a s)
  then show ?case by (cases s') (auto simp: extends_refl)
next
  case (10 ic n a l r cp)
  from "10.prems" obtain l' r' cp' where t: "(l', r', cp') \<in> set (rxm ic a (l, r, cp))"
    and s': "s' = (l', r', cp'[n := Some (take (length r - length r') r)])"
    by auto
  from "10.IH"[OF t] show ?case
    by (simp add: s' extends_def)
next
  case (11 ic l r cp)
  then show ?case by (auto simp: extends_def split: if_splits)
next
  case (12 ic l r cp)
  then show ?case by (auto simp: extends_def split: if_splits)
next
  case (13 ic l r cp)
  then show ?case by (auto simp: extends_def split: if_splits)
next
  case (14 ic a l r cp)
  from "14.prems" have "fst s' = l \<and> fst (snd s') = r"
    by (auto split: list.splits)
  then show ?case by (simp add: extends_def)
next
  case (15 ic a l r cp)
  from "15.prems" have "s' = (l, r, cp)"
    by (simp split: if_splits)
  then show ?case by (simp add: extends_def)
qed


lemma rxm_suffix:
  assumes "(l', r', cp') \<in> set (rxm ic a (l, r, cp))"
  shows "\<exists>u. r = u @ r' \<and> l' = rev u @ l"
  using rxm_extends[OF assms] by (simp add: extends_def)

lemma match_here_shape:
  assumes "match_here re l r = Some m"
  shows "before m = rev l \<and> r = matched m @ after m"
proof -
  from assms obtain l' r' cp' rest where
    hd: "rxm (icase re) (pat re) (l, r, replicate (Suc (ngroups re)) None) = (l', r', cp') # rest"
    and m: "m = \<lparr>before = rev l, matched = take (length r - length r') r, groups = cp', after = r'\<rparr>"
    by (auto simp: match_here_def split: list.splits)
  from hd have "(l', r', cp') \<in> set (rxm (icase re) (pat re) (l, r, replicate (Suc (ngroups re)) None))"
    by simp
  from rxm_suffix[OF this] obtain u where "r = u @ r'" by blast
  then show ?thesis by (simp add: m)
qed

lemma search_shape:
  "search re l r = Some m \<Longrightarrow> \<exists>u. before m = rev l @ u \<and> r = u @ matched m @ after m"
proof (induction re l r rule: search.induct)
  case (1 re l)
  from match_here_shape[of re l "[]" m] 1 show ?case by simp
next
  case (2 re l c cs)
  show ?case
  proof (cases "match_here re l (c # cs)")
    case None
    with 2 obtain u where "before m = rev (c # l) @ u" "cs = u @ matched m @ after m"
      by auto
    then have "before m = rev l @ (c # u) \<and> c # cs = (c # u) @ matched m @ after m"
      by simp
    then show ?thesis by blast
  next
    case (Some m')
    with 2 have "m' = m" by simp
    with Some match_here_shape[of re l "c # cs" m] show ?thesis by simp
  qed
qed

lemma search_after_le: "search re l r = Some m \<Longrightarrow> length (after m) \<le> length r"
  by (drule search_shape) auto

lemma search_after_less:
  "search re l r = Some m \<Longrightarrow> matched m \<noteq> [] \<Longrightarrow> length (after m) < length r"
  by (drule search_shape) auto

lemma search_after_Cons:
  "search re l r = Some m \<Longrightarrow> after m = c # cs \<Longrightarrow> length cs < length r"
  by (drule search_shape) auto

function find_all :: "regexp \<Rightarrow> string \<Rightarrow> string \<Rightarrow> rmatch list" where
  "find_all re l r =
     (case search re l r of
        None \<Rightarrow> []
      | Some m \<Rightarrow>
          m # (if matched m \<noteq> [] then find_all re (rev (matched m) @ rev (before m)) (after m)
               else (case after m of [] \<Rightarrow> []
                     | c # cs \<Rightarrow> find_all re (c # rev (before m)) cs)))"
  by pat_completeness auto
termination
  by (relation "measure (\<lambda>(re, l, r). length r)")
     (auto dest: search_after_less search_after_Cons)

function replace_from :: "regexp \<Rightarrow> (rmatch \<Rightarrow> string) \<Rightarrow> string \<Rightarrow> string \<Rightarrow> string" where
  "replace_from re f l r =
     (case search re l r of
        None \<Rightarrow> r
      | Some m \<Rightarrow>
          drop (length l) (before m) @ f m @
          (if matched m \<noteq> [] then replace_from re f (rev (matched m) @ rev (before m)) (after m)
           else (case after m of [] \<Rightarrow> []
                 | c # cs \<Rightarrow> c # replace_from re f (c # rev (before m)) cs)))"
  by pat_completeness auto
termination
  by (relation "measure (\<lambda>(re, f, l, r). length r)")
     (auto dest: search_after_less search_after_Cons)

lemma match_here_after_less:
  "match_here re l r = Some m \<Longrightarrow> matched m \<noteq> [] \<Longrightarrow> length (after m) < length r"
  by (drule match_here_shape) auto

function split_loop :: "regexp \<Rightarrow> string \<Rightarrow> string \<Rightarrow> string \<Rightarrow> string list" where
  "split_loop re lp seg [] = [rev seg]"
| "split_loop re lp seg (c # cs) =
     (case match_here re (seg @ lp) (c # cs) of
        None \<Rightarrow> split_loop re lp (c # seg) cs
      | Some m \<Rightarrow>
          if matched m = [] then
            (if seg = [] then split_loop re lp (c # seg) cs
             else rev seg # split_loop re (seg @ lp) [] (c # cs))
          else rev seg # split_loop re (rev (matched m) @ seg @ lp) [] (after m))"
  by pat_completeness auto
termination
  by (relation "measures [\<lambda>(re, lp, seg, r). length r, \<lambda>(re, lp, seg, r). length seg]")
     (auto dest: match_here_after_less)

text \<open>
  The methods of \<^verbatim>\<open>String.prototype\<close> and \<^verbatim>\<open>RegExp.prototype\<close> the program calls.
  \<open>js_match\<close> is \<^verbatim>\<open>match\<close> (or \<^verbatim>\<open>exec\<close>) for a pattern without the \<^verbatim>\<open>g\<close> flag,
  \<open>js_match_g\<close> the list of all matches that \<^verbatim>\<open>match\<close> returns with it (\<^verbatim>\<open>null\<close> being
  the empty list); \<open>js_replace\<close> replaces the first match, \<open>js_replace_g\<close> every match;
  \<open>js_split\<close> is \<^verbatim>\<open>split\<close> for a pattern without capture groups.
\<close>

definition js_test :: "regexp \<Rightarrow> string \<Rightarrow> bool" where
  "js_test re s = (search re [] s \<noteq> None)"

definition js_match :: "regexp \<Rightarrow> string \<Rightarrow> rmatch option" where
  "js_match re s = search re [] s"

definition js_match_g :: "regexp \<Rightarrow> string \<Rightarrow> string list" where
  "js_match_g re s = map matched (find_all re [] s)"

definition js_replace :: "regexp \<Rightarrow> (rmatch \<Rightarrow> string) \<Rightarrow> string \<Rightarrow> string" where
  "js_replace re f s = (case search re [] s of None \<Rightarrow> s | Some m \<Rightarrow> before m @ f m @ after m)"

definition js_replace_g :: "regexp \<Rightarrow> (rmatch \<Rightarrow> string) \<Rightarrow> string \<Rightarrow> string" where
  "js_replace_g re f s = replace_from re f [] s"

definition js_split :: "regexp \<Rightarrow> string \<Rightarrow> string list" where
  "js_split re s =
     (if s = [] then (if match_here re [] [] = None then [[]] else [])
      else split_loop re [] [] s)"



lemma match_here_mem:
  assumes "match_here re l r = Some m"
  shows "\<exists>l'. (l', after m, groups m) \<in> set (rxm (icase re) (pat re) (l, r, replicate (Suc (ngroups re)) None))"
proof -
  from assms obtain l' r' cp' rest where
    hd: "rxm (icase re) (pat re) (l, r, replicate (Suc (ngroups re)) None) = (l', r', cp') # rest"
    and m: "after m = r'" "groups m = cp'"
    by (auto simp: match_here_def split: list.splits)
  from hd have "(l', r', cp') \<in> set (rxm (icase re) (pat re) (l, r, replicate (Suc (ngroups re)) None))"
    by simp
  with m show ?thesis by blast
qed

lemma search_is_match_here:
  "search re l r = Some m \<Longrightarrow> \<exists>u v. r = u @ v \<and> match_here re (rev u @ l) v = Some m"
proof (induction re l r rule: search.induct)
  case (1 re l)
  then show ?case by simp
next
  case (2 re l c cs)
  show ?case
  proof (cases "match_here re l (c # cs)")
    case None
    with 2 obtain u v where "cs = u @ v" "match_here re (rev u @ c # l) v = Some m"
      by auto
    then have "c # cs = (c # u) @ v \<and> match_here re (rev (c # u) @ l) v = Some m"
      by simp
    then show ?thesis by blast
  next
    case (Some m')
    with 2 have "c # cs = [] @ (c # cs) \<and> match_here re (rev [] @ l) (c # cs) = Some m"
      by simp
    then show ?thesis by blast
  qed
qed

section \<open>The map page: \<^verbatim>\<open>getRouteCoordinates\<close> (scripts-04.js, scripts-03.js)\<close>

text \<open>
  \<^verbatim>\<open>getRouteCoordinates(input, preferences, isLocationArray)\<close> receives either the text the
  user typed or the array of locations the language stage returned.  For a text it extracts the
  locations and decides (\<^verbatim>\<open>isRouteRequest\<close>) whether the text asks for a route; once every
  location is geocoded it decides again, from \<^verbatim>\<open>input.toString()\<close> and the number of
  coordinates.  \<^verbatim>\<open>Promise.all\<close> resolves with one coordinate for each location, so that number
  is the number of locations.  The two files have the same code at these lines.
\<close>

definition trailing_marks :: regexp where
  \<comment> \<open>\<^verbatim>\<open>/[.!?]+$/\<close>\<close>
  "trailing_marks = \<lparr>pat = Seq (Plus (Cls [CChar CHR ''.'', CChar CHR ''!'', CChar CHR ''?''])) Eol,
                      icase = False, ngroups = 0\<rparr>"

definition ws_to_ws :: regexp where
  \<comment> \<open>\<^verbatim>\<open>/\s+to\s+/i\<close>\<close>
  "ws_to_ws = \<lparr>pat = seqs [Plus ws, Lit ''to'', Plus ws], icase = True, ngroups = 0\<rparr>"

datatype route_input = Text string | Locations "string list"

fun toString :: "route_input \<Rightarrow> string" where
  "toString (Text s) = s"
| "toString (Locations xs) = join '','' xs"

definition getRouteCoordinates_text :: "string \<Rightarrow> string list \<times> bool" where
  \<comment> \<open>the locations and \<^verbatim>\<open>isRouteRequest\<close> of a text, before geocoding\<close>
  "getRouteCoordinates_text input =
     (let inputString = trim input;
          inputString = trim (js_replace trailing_marks (\<lambda>_. []) inputString);
          startsWithFrom = startsWith (toLowerCase inputString) ''from '';
          inputString = (if startsWithFrom then trim (drop 5 inputString) else inputString);
          locations = filter (\<lambda>location. length location > 0)
                        (map trim (js_split ws_to_ws inputString));
          hasToKeyword = str_includes (toLowerCase input) '' to '';
          isRouteRequest = (length locations > 1 \<or> startsWithFrom \<or> hasToKeyword)
      in (locations, isRouteRequest))"

definition isRouteRequest_geocoded :: "route_input \<Rightarrow> nat \<Rightarrow> bool" where
  \<comment> \<open>\<^verbatim>\<open>isRouteRequest\<close> after geocoding, from the input and the number of coordinates\<close>
  "isRouteRequest_geocoded input ncoordinates =
     (let startsWithFrom = startsWith (trim (toLowerCase (toString input))) ''from '';
          hasToKeyword = str_includes (toLowerCase (toString input)) '' to ''
      in ncoordinates > 1 \<or> startsWithFrom \<or> hasToKeyword)"

subsection \<open>Removing trailing marks and blanks leaves a prefix\<close>

lemma startsWith_iff: "startsWith s p \<longleftrightarrow> (\<exists>t. s = p @ t)"
  by (induction s p rule: startsWith.induct) auto

lemma is_space_lower_char [simp]: "is_space (lower_char c) = is_space c"
proof (cases c)
  case (Char b0 b1 b2 b3 b4 b5 b6 b7)
  show ?thesis
    unfolding Char lower_char_code by (simp add: is_space_code)
qed

lemma dropWhile_map_lower: "dropWhile is_space (map lower_char s) = map lower_char (dropWhile is_space s)"
  by (induction s) auto

lemma toLowerCase_trim: "toLowerCase (trim s) = trim (toLowerCase s)"
  by (simp add: toLowerCase_def trim_def trimStart_def trimEnd_def rev_map dropWhile_map_lower)


lemma rxm_Seq_Eol:
  assumes "(l', r', cp') \<in> set (rxm ic (Seq a Eol) s)"
  shows "r' = []"
proof -
  from assms obtain t where "(l', r', cp') \<in> set (rxm ic Eol t)"
    by auto
  then show ?thesis
    by (cases t) (auto split: if_splits)
qed

lemma search_Seq_Eol:
  assumes "pat re = Seq a Eol" "search re l r = Some m"
  shows "after m = []"
proof -
  from search_is_match_here[OF assms(2)] obtain u v
    where "match_here re (rev u @ l) v = Some m" by blast
  from match_here_mem[OF this] assms(1) rxm_Seq_Eol show ?thesis
    by metis
qed

lemma strip_trailing_marks_prefix:
  "\<exists>t. s = js_replace trailing_marks (\<lambda>_. []) s @ t"
proof (cases "search trailing_marks [] s")
  case None
  then show ?thesis by (simp add: js_replace_def)
next
  case (Some m)
  from search_shape[OF Some] have s: "s = before m @ matched m @ after m" by simp
  from search_Seq_Eol[OF _ Some] have "after m = []" by (simp add: trailing_marks_def)
  with s Some show ?thesis
    by (auto simp: js_replace_def)
qed

lemma trimStart_idem_prefix:
  assumes "trimStart t = t" "t = p @ q"
  shows "trimStart p = p"
proof (cases p)
  case Nil
  then show ?thesis by (simp add: trimStart_def)
next
  case (Cons c cs)
  with assms have "dropWhile is_space (c # (cs @ q)) = c # (cs @ q)"
    by (simp add: trimStart_def)
  then have "\<not> is_space c"
    by (metis dropWhile_eq_Cons_conv)
  with Cons show ?thesis by (simp add: trimStart_def)
qed

lemma trimEnd_prefix: "\<exists>q. s = trimEnd s @ q"
proof -
  have "rev s = takeWhile is_space (rev s) @ dropWhile is_space (rev s)" by simp
  then have "s = rev (dropWhile is_space (rev s)) @ rev (takeWhile is_space (rev s))"
    by (metis rev_append rev_rev_ident)
  then show ?thesis unfolding trimEnd_def by blast
qed

lemma trimStart_trimEnd: "trimStart (trimEnd (trimStart s)) = trimEnd (trimStart s)"
proof -
  have "trimStart (trimStart s) = trimStart s"
    by (simp add: trimStart_def dropWhile_idem)
  moreover obtain q where "trimStart s = trimEnd (trimStart s) @ q"
    using trimEnd_prefix by blast
  ultimately show ?thesis by (rule trimStart_idem_prefix)
qed

lemma trimStart_trim: "trimStart (trim s) = trim s"
  by (simp add: trim_def trimStart_trimEnd)

lemma trim_of_prefix_of_trimmed:
  assumes "trim s = p @ q"
  shows "\<exists>q'. trim s = trim p @ q'"
proof -
  from trimStart_idem_prefix[OF trimStart_trim assms] have "trimStart p = p" .
  then have "trim p = trimEnd p" by (simp add: trim_def)
  moreover obtain q1 where "p = trimEnd p @ q1" using trimEnd_prefix by blast
  ultimately have "trim s = trim p @ (q1 @ q)" using assms by simp
  then show ?thesis by blast
qed

lemma startsWith_lower_prefix:
  assumes "startsWith (toLowerCase p) w" "t = p @ q"
  shows "startsWith (toLowerCase t) w"
  using assms by (auto simp: startsWith_iff toLowerCase_def)

lemma from_before_implies_from_after:
  assumes "startsWith (toLowerCase (trim (js_replace trailing_marks (\<lambda>_. []) (trim input)))) ''from ''"
  shows "startsWith (trim (toLowerCase input)) ''from ''"
proof -
  obtain t where "trim input = js_replace trailing_marks (\<lambda>_. []) (trim input) @ t"
    using strip_trailing_marks_prefix by blast
  from trim_of_prefix_of_trimmed[OF this] obtain q'
    where "trim input = trim (js_replace trailing_marks (\<lambda>_. []) (trim input)) @ q'" by blast
  from startsWith_lower_prefix[OF assms this] show ?thesis
    by (simp add: toLowerCase_trim)
qed


subsection \<open>The two classifications\<close>

text \<open>
  C7 (as amended).  After geocoding a request is a route request exactly when there is more
  than one coordinate, or the lower-cased input, trimmed, starts with \<^verbatim>\<open>from\<close> and a blank, or
  the lower-cased input contains \<^verbatim>\<open>to\<close> between two blanks.  Before geocoding the same three
  tests are made on the text, except that the test for \<^verbatim>\<open>from\<close> reads the text after its
  trailing full stops, exclamation and question marks are removed; whenever the text is
  classified as a route request before geocoding, it is classified so after geocoding, for the
  locations extracted from it.
\<close>

theorem C7_route_classifier:
  "(isRouteRequest_geocoded input n \<longleftrightarrow>
      1 < n \<or> startsWith (trim (toLowerCase (toString input))) ''from '' \<or>
      str_includes (toLowerCase (toString input)) '' to '') \<and>
   (snd (getRouteCoordinates_text inp) \<longleftrightarrow>
      1 < length (fst (getRouteCoordinates_text inp)) \<or>
      startsWith (toLowerCase (trim (js_replace trailing_marks (\<lambda>_. []) (trim inp)))) ''from '' \<or>
      str_includes (toLowerCase inp) '' to '') \<and>
   (snd (getRouteCoordinates_text inp) \<longrightarrow>
      isRouteRequest_geocoded (Text inp) (length (fst (getRouteCoordinates_text inp))))"
proof (intro conjI impI)
  show "isRouteRequest_geocoded input n \<longleftrightarrow>
      1 < n \<or> startsWith (trim (toLowerCase (toString input))) ''from '' \<or>
      str_includes (toLowerCase (toString input)) '' to ''"
    by (simp add: isRouteRequest_geocoded_def)
next
  show "snd (getRouteCoordinates_text inp) \<longleftrightarrow>
      1 < length (fst (getRouteCoordinates_text inp)) \<or>
      startsWith (toLowerCase (trim (js_replace trailing_marks (\<lambda>_. []) (trim inp)))) ''from '' \<or>
      str_includes (toLowerCase inp) '' to ''"
    by (simp add: getRouteCoordinates_text_def Let_def)
next
  assume "snd (getRouteCoordinates_text inp)"
  then show "isRouteRequest_geocoded (Text inp) (length (fst (getRouteCoordinates_text inp)))"
    unfolding getRouteCoordinates_text_def isRouteRequest_geocoded_def Let_def
    using from_before_implies_from_after[of inp] by auto
qed

theorem C7_route_classifier_witness:
  "snd (getRouteCoordinates_text ''From Paris to London.'') \<and>
   fst (getRouteCoordinates_text ''From Paris to London.'') = [''Paris'', ''London''] \<and>
   isRouteRequest_geocoded (Text ''From Paris to London.'') 2"
proof -
  have locs: "fst (getRouteCoordinates_text ''From Paris to London.'') = [''Paris'', ''London'']"
    by code_simp
  have pre: "snd (getRouteCoordinates_text ''From Paris to London.'')"
    by code_simp
  from C7_route_classifier[of "Text ''From Paris to London.''" 2 "''From Paris to London.''"] pre
  have "isRouteRequest_geocoded (Text ''From Paris to London.'')
          (length (fst (getRouteCoordinates_text ''From Paris to London.'')))"
    by blast
  with locs pre show ?thesis by (simp add: numeral_2_eq_2)
qed

text \<open>
  The claim as stated fails: on the text \<^verbatim>\<open>from .\<close> the only location is \<^verbatim>\<open>from\<close>, the
  classification before geocoding is negative and the one after geocoding, from the same text
  and the one coordinate, is positive.
\<close>

theorem C7_counterexample:
  "fst (getRouteCoordinates_text ''from .'') = [''from''] \<and>
   \<not> snd (getRouteCoordinates_text ''from .'') \<and>
   isRouteRequest_geocoded (Text ''from .'') 1"
  by code_simp

section \<open>JavaScript values and exceptions\<close>

datatype jsval =
    JUndefined
  | JNull
  | JBool bool
  | JNum int
  | JStr string
  | JArr "jsval list"
  | JObj "(string \<times> jsval) list"

datatype js_error = TypeError | SyntaxError | Error string

fun truthy :: "jsval \<Rightarrow> bool" where
  "truthy JUndefined = False"
| "truthy JNull = False"
| "truthy (JBool b) = b"
| "truthy (JNum n) = (n \<noteq> 0)"
| "truthy (JStr s) = (s \<noteq> [])"
| "truthy (JArr xs) = True"
| "truthy (JObj kvs) = True"

fun get_prop :: "jsval \<Rightarrow> string \<Rightarrow> jsval" where
  "get_prop (JObj kvs) k = (case map_of kvs k of Some v \<Rightarrow> v | None \<Rightarrow> JUndefined)"
| "get_prop (JArr xs) k =
     (if k = ''length'' then JNum (int (length xs))
      else if k = ''0'' then (case xs of [] \<Rightarrow> JUndefined | x # _ \<Rightarrow> x)
      else JUndefined)"
| "get_prop (JStr s) k =
     (if k = ''length'' then JNum (int (length s))
      else if k = ''0'' then (case s of [] \<Rightarrow> JUndefined | c # _ \<Rightarrow> JStr [c])
      else JUndefined)"
| "get_prop v k = JUndefined"

definition js_member :: "jsval \<Rightarrow> string \<Rightarrow> js_error + jsval" where
  "js_member v k = (if v = JUndefined \<or> v = JNull then Inl TypeError else Inr (get_prop v k))"

definition then_js :: "js_error + 'a \<Rightarrow> ('a \<Rightarrow> js_error + 'b) \<Rightarrow> js_error + 'b" where
  "then_js x f = (case x of Inl e \<Rightarrow> Inl e | Inr v \<Rightarrow> f v)"

definition mgroup :: "rmatch \<Rightarrow> nat \<Rightarrow> string option" where
  "mgroup m i = (if i = 0 then Some (matched m)
                 else if i < length (groups m) then groups m ! i else None)"

definition str_of :: "string option \<Rightarrow> js_error + string" where
  "str_of g = (case g of None \<Rightarrow> Inl TypeError | Some s \<Rightarrow> Inr s)"

definition group_truthy :: "rmatch \<Rightarrow> nat \<Rightarrow> bool" where
  "group_truthy m i = (case mgroup m i of Some s \<Rightarrow> s \<noteq> [] | None \<Rightarrow> False)"

definition word_alts :: "string list \<Rightarrow> rx" where
  "word_alts alternatives = alts (map Lit alternatives)"

section \<open>nlp.js\<close>

definition ws_run :: regexp where
  "ws_run = \<lparr>pat = Plus ws, icase = False, ngroups = 0\<rparr>"

definition walk_words :: regexp where
  "walk_words = \<lparr>pat = seqs [Wb, Grp 1 (word_alts [''walk'', ''walking'', ''on foot'']), Wb],
                  icase = True, ngroups = 1\<rparr>"

definition cycle_words :: regexp where
  "cycle_words = \<lparr>pat = seqs [Wb, Grp 1 (word_alts [''cycl'', ''bike'', ''biking'', ''bicycle'']), Wb],
                   icase = True, ngroups = 1\<rparr>"

definition toll_words :: regexp where
  "toll_words = \<lparr>pat = seqs [Wb, Grp 1 (word_alts [''no toll'', ''avoid toll'', ''without toll'']), Wb],
                  icase = True, ngroups = 1\<rparr>"

definition highway_words :: regexp where
  "highway_words =
     \<lparr>pat = seqs [Wb, Grp 1 (word_alts [''no highway'', ''avoid highway'', ''without highway'']), Wb],
      icase = True, ngroups = 1\<rparr>"

definition ferry_words :: regexp where
  "ferry_words = \<lparr>pat = seqs [Wb, Grp 1 (word_alts [''no ferr'', ''avoid ferr'', ''without ferr'']), Wb],
                   icase = True, ngroups = 1\<rparr>"

definition letters_ws :: rx where
  "letters_ws = Cls [CUpper, CLower, CSpace]"

definition routePattern :: regexp where
  "routePattern =
     \<lparr>pat = seqs [Lit ''route'', Plus ws, Lit ''from'', Plus ws, Grp 1 (PlusL letters_ws),
                  Plus ws, Lit ''to'', Plus ws, Grp 2 (Plus letters_ws), alts [ws, Eol]],
      icase = True, ngroups = 2\<rparr>"

definition sep_word :: "string \<Rightarrow> regexp" where
  "sep_word w = \<lparr>pat = seqs [Plus ws, Lit w, Plus ws], icase = True, ngroups = 0\<rparr>"

definition sep_comma :: regexp where
  "sep_comma = \<lparr>pat = seqs [Star ws, Lit '','', Star ws], icase = False, ngroups = 0\<rparr>"

definition separators :: "regexp list" where
  "separators = [sep_word ''to'', sep_word ''and'', sep_comma, sep_word ''through'',
                 sep_word ''via'', sep_word ''between'']"

definition betweenPattern :: regexp where
  "betweenPattern =
     \<lparr>pat = seqs [Lit ''between'', Plus ws, Grp 1 (Plus letters_ws), Plus ws, Lit ''and'', Plus ws,
                  Grp 2 (Plus letters_ws)],
      icase = True, ngroups = 2\<rparr>"

definition leading_preposition :: regexp where
  "leading_preposition =
     \<lparr>pat = seqs [Bol, Grp 1 (word_alts [''from'', ''to'', ''in'', ''at'', ''starting'', ''ending'',
                                      ''beginning'', ''route'']), Plus ws],
      icase = True, ngroups = 1\<rparr>"

definition leading_command :: regexp where
  "leading_command =
     \<lparr>pat = seqs [Bol, Grp 1 (alts [Lit ''show'', Lit ''find'', Lit ''get'', Lit ''display'',
                                     Lit ''give me'', Lit ''route'', Lit ''path'',
                                     Seq (Lit ''direction'') (Opt (Lit ''s'')), Lit ''map'']), Plus ws],
      icase = True, ngroups = 1\<rparr>"

definition leading_from_to_in_at :: regexp where
  "leading_from_to_in_at =
     \<lparr>pat = seqs [Bol, Grp 1 (word_alts [''from'', ''to'', ''in'', ''at'']), Plus ws],
      icase = True, ngroups = 1\<rparr>"

definition trailing_command :: regexp where
  "trailing_command =
     \<lparr>pat = seqs [Plus ws, Grp 1 (alts [Lit ''route'', Lit ''path'',
                                          Seq (Lit ''direction'') (Opt (Lit ''s'')), Lit ''map'']), Eol],
      icase = True, ngroups = 1\<rparr>"

definition nlp_result :: "string list \<Rightarrow> jsval \<Rightarrow> jsval" where
  "nlp_result locations preferences =
     JObj [(''locations'', JArr (map JStr locations)), (''preferences'', preferences)]"

definition preferences_obj :: "string \<Rightarrow> bool \<Rightarrow> bool \<Rightarrow> bool \<Rightarrow> jsval" where
  "preferences_obj transportMode avoidTolls avoidHighways avoidFerries =
     JObj [(''transportMode'', JStr transportMode), (''avoidTolls'', JBool avoidTolls),
           (''avoidHighways'', JBool avoidHighways), (''avoidFerries'', JBool avoidFerries)]"

definition two_groups :: "rmatch \<Rightarrow> js_error + string list" where
  \<comment> \<open>\<^verbatim>\<open>[m[1].trim(), m[2].trim()]\<close>\<close>
  "two_groups m =
     then_js (str_of (mgroup m 1)) (\<lambda>a. then_js (str_of (mgroup m 2)) (\<lambda>b. Inr [trim a, trim b]))"

fun try_separators :: "regexp list \<Rightarrow> string \<Rightarrow> (js_error + string list) option" where
  "try_separators [] normalizedText = None"
| "try_separators (separator # rest) normalizedText =
     (if js_test separator normalizedText then
        (if separator = sep_word ''between'' then
           (case js_match betweenPattern normalizedText of
              Some betweenMatch \<Rightarrow> Some (two_groups betweenMatch)
            | None \<Rightarrow> try_separators rest normalizedText)
         else
           (let parts = js_split separator normalizedText;
                parts = filter (\<lambda>part. length part > 0)
                          (map (\<lambda>part. trim (js_replace leading_preposition (\<lambda>_. []) part)) parts)
            in if length parts \<ge> 2 then Some (Inr parts)
               else try_separators rest normalizedText))
      else try_separators rest normalizedText)"

definition nlp_extractLocationsWithRegex :: "string \<Rightarrow> js_error + jsval" where
  "nlp_extractLocationsWithRegex txt =
     (if txt = [] then Inr (JArr [])
      else
        let normalizedText = js_replace_g ws_run (\<lambda>_. '' '') (trim txt);
            transportMode =
              (if js_test walk_words normalizedText then ''walking''
               else if js_test cycle_words normalizedText then ''cycling'' else ''driving'');
            avoidTolls = js_test toll_words normalizedText;
            avoidHighways = js_test highway_words normalizedText;
            avoidFerries = js_test ferry_words normalizedText;
            preferences = preferences_obj transportMode avoidTolls avoidHighways avoidFerries
        in case js_match routePattern normalizedText of
             Some routeMatch \<Rightarrow>
               then_js (two_groups routeMatch) (\<lambda>locations. Inr (nlp_result locations preferences))
           | None \<Rightarrow>
               (case try_separators separators normalizedText of
                  Some found \<Rightarrow> then_js found (\<lambda>locations. Inr (nlp_result locations preferences))
                | None \<Rightarrow>
                    let cleanedText =
                          trim (js_replace trailing_command (\<lambda>_. [])
                                 (js_replace leading_from_to_in_at (\<lambda>_. [])
                                   (js_replace leading_command (\<lambda>_. []) normalizedText)))
                    in if cleanedText \<noteq> [] \<and> cleanedText \<noteq> normalizedText
                       then Inr (nlp_result [cleanedText] preferences)
                       else Inr (nlp_result [trim txt] preferences)))"

section \<open>enhanced-nlp.js\<close>

definition routingKeywords :: regexp where
  "routingKeywords =
     \<lparr>pat = word_alts [''route'', ''path'', ''way'', ''directions'', ''from'', ''to'', ''travel'',
                        ''trip'', ''journey'', ''drive'', ''walk'', ''map'', ''between''],
      icase = True, ngroups = 0\<rparr>"

definition group_end :: rx where
  \<comment> \<open>\<^verbatim>\<open>(?:\s|$|\.|,)\<close>\<close>
  "group_end = alts [ws, Eol, Lit ''.'', Lit '','']"

definition simpleRoutePattern :: regexp where
  "simpleRoutePattern =
     \<lparr>pat = seqs [alts [seqs [Lit ''from'', Plus ws],
                        seqs [Lit ''route'', Plus ws, Lit ''from'', Plus ws],
                        seqs [Lit ''direction'', Opt (Lit ''s''), Plus ws, Lit ''from'', Plus ws]],
                  Grp 1 (StarL Dot), Plus ws, Lit ''to'', Plus ws, Grp 2 (StarL Dot), group_end],
      icase = True, ngroups = 2\<rparr>"

definition whole_word :: "string \<Rightarrow> regexp" where
  \<comment> \<open>\<^verbatim>\<open>/\bw\b/i\<close>\<close>
  "whole_word w = \<lparr>pat = seqs [Wb, Lit w, Wb], icase = True, ngroups = 0\<rparr>"

definition one_trailing_mark :: regexp where
  \<comment> \<open>\<^verbatim>\<open>/[,.!?;]$/\<close>\<close>
  "one_trailing_mark =
     \<lparr>pat = Seq (Cls [CChar CHR '','', CChar CHR ''.'', CChar CHR ''!'', CChar CHR ''?'',
                       CChar CHR '';'']) Eol,
      icase = False, ngroups = 0\<rparr>"

definition from_rest :: regexp where
  \<comment> \<open>\<^verbatim>\<open>/from\s+(.*)/i\<close>\<close>
  "from_rest = \<lparr>pat = seqs [Lit ''from'', Plus ws, Grp 1 (Star Dot)], icase = True, ngroups = 1\<rparr>"

definition route_rest :: regexp where
  \<comment> \<open>\<^verbatim>\<open>/route(?:\s+from)?\s+(.*)/i\<close>\<close>
  "route_rest =
     \<lparr>pat = seqs [Lit ''route'', Opt (Seq (Plus ws) (Lit ''from'')), Plus ws, Grp 1 (Star Dot)],
      icase = True, ngroups = 1\<rparr>"

definition leading_route :: regexp where
  \<comment> \<open>\<^verbatim>\<open>/^route\s+/i\<close>\<close>
  "leading_route = \<lparr>pat = seqs [Bol, Lit ''route'', Plus ws], icase = True, ngroups = 0\<rparr>"

definition leading_mode :: regexp where
  \<comment> \<open>\<^verbatim>\<open>/^(path|walking|driving|cycling|directions?)\s+/i\<close>\<close>
  "leading_mode =
     \<lparr>pat = seqs [Bol, Grp 1 (alts [Lit ''path'', Lit ''walking'', Lit ''driving'', Lit ''cycling'',
                                     Seq (Lit ''direction'') (Opt (Lit ''s''))]), Plus ws],
      icase = True, ngroups = 1\<rparr>"

definition walkingRoutePattern :: regexp where
  "walkingRoutePattern =
     \<lparr>pat = seqs [Wb, Grp 1 (word_alts [''walk'', ''walking'']), Wb, StarL Dot,
                  Wb, Grp 2 (word_alts [''from'', ''in'']), Plus ws, Grp 3 (StarL Dot),
                  Plus ws, Lit ''to'', Plus ws, Grp 4 (StarL Dot), group_end],
      icase = True, ngroups = 4\<rparr>"

definition mode_word :: regexp where
  \<comment> \<open>\<^verbatim>\<open>/\b(walking|cycling|driving|transit)\b/i\<close>\<close>
  "mode_word =
     \<lparr>pat = seqs [Wb, Grp 1 (word_alts [''walking'', ''cycling'', ''driving'', ''transit'']), Wb],
      icase = True, ngroups = 1\<rparr>"

definition to_chain :: rx where
  \<comment> \<open>\<^verbatim>\<open>\s+to\s+\<close>\<close>
  "to_chain = seqs [Plus ws, Lit ''to'', Plus ws]"

definition end_or_stop :: rx where
  \<comment> \<open>\<^verbatim>\<open>(?:$|\.)\<close>\<close>
  "end_or_stop = alts [Eol, Lit ''.'']"

definition fromToChain :: regexp where
  \<comment> \<open>\<^verbatim>\<open>/from\s+(.*?)\s+to\s+(.*?)(?:\s+to\s+(.*?))?(?:\s+to\s+(.*?))?(?:\s+to\s+(.*?))?(?:$|\.)/i\<close>\<close>
  "fromToChain =
     \<lparr>pat = seqs [Lit ''from'', Plus ws, Grp 1 (StarL Dot), to_chain, Grp 2 (StarL Dot),
                  Opt (Seq to_chain (Grp 3 (StarL Dot))), Opt (Seq to_chain (Grp 4 (StarL Dot))),
                  Opt (Seq to_chain (Grp 5 (StarL Dot))), end_or_stop],
      icase = True, ngroups = 5\<rparr>"

definition toChain :: regexp where
  \<comment> \<open>\<^verbatim>\<open>/^(.*?)\s+to\s+(.*?)(?:\s+to\s+(.*?))?(?:\s+to\s+(.*?))?(?:$|\.)/i\<close>\<close>
  "toChain =
     \<lparr>pat = seqs [Bol, Grp 1 (StarL Dot), to_chain, Grp 2 (StarL Dot),
                  Opt (Seq to_chain (Grp 3 (StarL Dot))), Opt (Seq to_chain (Grp 4 (StarL Dot))),
                  end_or_stop],
      icase = True, ngroups = 4\<rparr>"

definition trailing_list_marks :: regexp where
  \<comment> \<open>\<^verbatim>\<open>/[,.:;]+$/\<close>\<close>
  "trailing_list_marks =
     \<lparr>pat = Seq (Plus (Cls [CChar CHR '','', CChar CHR ''.'', CChar CHR '':'', CChar CHR '';''])) Eol,
      icase = False, ngroups = 0\<rparr>"

definition arrow :: string where
  \<comment> \<open>the separator of the messages, a right arrow (U+2192) between two blanks; the arrow lies
      outside the code units below 256 and is written as the three bytes of its UTF-8 form\<close>
  "arrow = [CHR 0x20, CHR 0xE2, CHR 0x86, CHR 0x92, CHR 0x20]"

definition location :: "jsval \<Rightarrow> jsval \<Rightarrow> jsval" where
  "location name timeContext = JObj [(''name'', name), (''timeContext'', timeContext)]"

definition extraction_result ::
  "bool \<Rightarrow> jsval list \<Rightarrow> string \<Rightarrow> string \<Rightarrow> jsval list \<Rightarrow> jsval" where
  "extraction_result isRouteRequest locations travelMode message suggestedSequence =
     JObj [(''isRouteRequest'', JBool isRouteRequest), (''locations'', JArr locations),
           (''travelMode'', JStr travelMode), (''preferences'', JArr []),
           (''message'', JStr message), (''suggestedSequence'', JArr suggestedSequence)]"

definition route_of_waypoints :: "string \<Rightarrow> string \<Rightarrow> string list \<Rightarrow> jsval" where
  "route_of_waypoints travelMode message waypoints =
     extraction_result True (map (\<lambda>wp. location (JStr wp) (JStr [])) waypoints) travelMode message
       (map JStr waypoints)"

definition travelMode_of :: "string \<Rightarrow> string" where
  "travelMode_of inputText =
     (if js_test walk_words inputText then ''walking''
      else if js_test cycle_words inputText then ''cycling'' else ''driving'')"

definition multi_stop_route :: "string \<Rightarrow> string list \<Rightarrow> jsval" where
  "multi_stop_route inputText waypoints =
     (let travelMode = travelMode_of inputText
      in route_of_waypoints travelMode
           (''Creating a '' @ travelMode @ '' route with multiple stops: '' @ join arrow waypoints)
           waypoints)"

definition nth_opt :: "'a list \<Rightarrow> nat \<Rightarrow> 'a option" where
  "nth_opt xs i = (if i < length xs then Some (xs ! i) else None)"

definition clean_part :: "string \<Rightarrow> string" where
  \<comment> \<open>\<^verbatim>\<open>part.trim().replace(/[,.!?;]$/, '').trim()\<close>\<close>
  "clean_part part = trim (js_replace one_trailing_mark (\<lambda>_. []) (trim part))"

fun waypoints_of_parts :: "string list \<Rightarrow> string list" where
  "waypoints_of_parts [] = []"
| "waypoints_of_parts (first # others) =
     (if first \<noteq> [] then [trim first] else []) @
     filter (\<lambda>part. part \<noteq> []) (map clean_part others)"

definition waypoints_after_from :: "string \<Rightarrow> string list option" where
  \<comment> \<open>lines 30-52: \<^verbatim>\<open>None\<close> when there is no text after a word \<^verbatim>\<open>from\<close>\<close>
  "waypoints_after_from inputText =
     (case nth_opt (js_split (whole_word ''from'') inputText) 1 of
        None \<Rightarrow> None
      | Some afterFrom \<Rightarrow>
          if afterFrom = [] then None
          else Some (waypoints_of_parts (js_split (whole_word ''to'') afterFrom)))"

definition waypoints_after_route :: "string \<Rightarrow> (js_error + string list) option" where
  \<comment> \<open>lines 72-117\<close>
  "waypoints_after_route inputText =
     (case nth_opt (js_split (whole_word ''route'') inputText) 1 of
        None \<Rightarrow> None
      | Some afterRoute \<Rightarrow>
          if afterRoute = [] then None
          else if str_includes (toLowerCase afterRoute) ''from'' then
            (case nth_opt (js_split (whole_word ''from'') afterRoute) 1 of
               None \<Rightarrow> Some (Inl TypeError)
             | Some afterFrom \<Rightarrow>
                 Some (Inr (waypoints_of_parts (js_split (whole_word ''to'') afterFrom))))
          else Some (Inr (waypoints_of_parts (js_split (whole_word ''to'') afterRoute))))"

definition truthy_group :: "rmatch option \<Rightarrow> nat \<Rightarrow> string option" where
  \<comment> \<open>\<^verbatim>\<open>m && m[i]\<close>, when it is truthy\<close>
  "truthy_group mo i =
     (case mo of
        None \<Rightarrow> None
      | Some m \<Rightarrow> (case mgroup m i of None \<Rightarrow> None | Some g \<Rightarrow> if g = [] then None else Some g))"

definition first_waypoint :: "string \<Rightarrow> string list" where
  \<comment> \<open>lines 145-168: what the first part of the split at \<^verbatim>\<open>to\<close> contributes\<close>
  "first_waypoint firstPart =
     (if str_includes (toLowerCase firstPart) ''from'' then
        (case truthy_group (js_match from_rest firstPart) 1 of
           Some g \<Rightarrow> [trim g]
         | None \<Rightarrow> [])
      else if str_includes (toLowerCase firstPart) ''route'' then
        (case truthy_group (js_match route_rest firstPart) 1 of
           Some g \<Rightarrow> [trim g]
         | None \<Rightarrow>
             (let firstPart = trim (js_replace leading_route (\<lambda>_. []) firstPart)
              in if firstPart \<noteq> [] then [firstPart] else []))
      else
        (let cleanedFirst = trim (js_replace leading_mode (\<lambda>_. []) firstPart)
         in if cleanedFirst \<noteq> [] then [cleanedFirst] else []))"

definition waypoints_direct :: "string \<Rightarrow> string list" where
  \<comment> \<open>lines 141-176\<close>
  "waypoints_direct inputText =
     (case js_split ws_to_ws inputText of
        [] \<Rightarrow> []
      | first # others \<Rightarrow>
          first_waypoint (trim first) @
          filter (\<lambda>part. part \<noteq> [])
            (map (\<lambda>part. js_replace one_trailing_mark (\<lambda>_. []) (trim part)) others))"

definition multi_waypoint_shortcut :: "string \<Rightarrow> (js_error + jsval) option" where
  \<comment> \<open>lines 23-195: \<^verbatim>\<open>None\<close> when the block returns nothing\<close>
  "multi_waypoint_shortcut inputText =
     (let hasMultipleToKeywords = (length (js_match_g (whole_word ''to'') inputText) \<ge> 2);
          direct = (let waypoints = waypoints_direct inputText
                    in if length waypoints \<ge> 2
                       then Some (Inr (multi_stop_route inputText waypoints)) else None)
      in if hasMultipleToKeywords \<and>
            (str_includes (toLowerCase inputText) ''from'' \<or>
             str_includes (toLowerCase inputText) ''route'')
         then
           (if str_includes (toLowerCase inputText) ''from'' then
              (case waypoints_after_from inputText of
                 Some waypoints \<Rightarrow>
                   if length waypoints \<ge> 2 then Some (Inr (multi_stop_route inputText waypoints))
                   else direct
               | None \<Rightarrow> direct)
            else
              (case waypoints_after_route inputText of
                 Some (Inl e) \<Rightarrow> Some (Inl e)
               | Some (Inr waypoints) \<Rightarrow>
                   if length waypoints \<ge> 2 then Some (Inr (multi_stop_route inputText waypoints))
                   else direct
               | None \<Rightarrow> direct))
         else None)"

definition two_stop_route :: "string \<Rightarrow> string \<Rightarrow> string \<Rightarrow> jsval" where
  "two_stop_route travelMode from to =
     route_of_waypoints travelMode
       (''Creating a '' @ travelMode @ '' route from '' @ from @ '' to '' @ to) [from, to]"

definition simple_route_shortcut :: "string \<Rightarrow> jsval option" where
  \<comment> \<open>lines 197-218\<close>
  "simple_route_shortcut inputText =
     (let simpleRouteMatch = js_match simpleRoutePattern inputText
      in case (truthy_group simpleRouteMatch 1, truthy_group simpleRouteMatch 2) of
           (Some g1, Some g2) \<Rightarrow> Some (two_stop_route (travelMode_of inputText) (trim g1) (trim g2))
         | _ \<Rightarrow> None)"

definition walking_route_shortcut :: "string \<Rightarrow> jsval option" where
  \<comment> \<open>lines 221-240\<close>
  "walking_route_shortcut inputText =
     (let walkingRouteMatch = js_match walkingRoutePattern inputText
      in case (truthy_group walkingRouteMatch 3, truthy_group walkingRouteMatch 4) of
           (Some g3, Some g4) \<Rightarrow> Some (two_stop_route ''walking'' (trim g3) (trim g4))
         | _ \<Rightarrow> None)"

definition gibbon_result :: jsval where
  "gibbon_result =
     extraction_result False
       [location (JStr ''Mediterranean'') (JStr []), location (JStr ''sub-Saharan Africa'') (JStr []),
        location (JStr ''China'') (JStr []), location (JStr ''Constantinople'') (JStr ''1453'')]
       ''driving''
       (''I found several geographical locations mentioned in this historical text. '' @
        ''Would you like to see them visualized on a map?'')
       [JStr ''Mediterranean'', JStr ''sub-Saharan Africa'', JStr ''China'', JStr ''Constantinople'']"

definition gibbon_shortcut :: "string \<Rightarrow> jsval option" where
  \<comment> \<open>lines 243-263\<close>
  "gibbon_shortcut inputText =
     (if str_includes inputText ''Gibbon's canvas'' \<and> str_includes inputText ''Mediterranean'' \<and>
         str_includes inputText ''Constantinople in 1453''
      then Some gibbon_result else None)"

subsection \<open>\<^verbatim>\<open>extractLocationsFromParagraph\<close>\<close>

definition sentence_end :: regexp where
  \<comment> \<open>\<^verbatim>\<open>/[.!?]+/\<close>\<close>
  "sentence_end = \<lparr>pat = Plus (Cls [CChar CHR ''.'', CChar CHR ''!'', CChar CHR ''?'']),
                    icase = False, ngroups = 0\<rparr>"

definition capitalized_word :: rx where
  \<comment> \<open>\<^verbatim>\<open>[A-Z][a-zA-Z]+\<close>\<close>
  "capitalized_word = Seq (Cls [CUpper]) (Plus (Cls [CLower, CUpper]))"

definition capitalizedPattern :: regexp where
  \<comment> \<open>\<^verbatim>\<open>/\b([A-Z][a-zA-Z]+(?:\s+[A-Z][a-zA-Z]+)*)\b/g\<close>\<close>
  "capitalizedPattern =
     \<lparr>pat = seqs [Wb, Grp 1 (Seq capitalized_word (Star (Seq (Plus ws) capitalized_word))), Wb],
      icase = False, ngroups = 1\<rparr>"

fun upto :: "nat \<Rightarrow> rx \<Rightarrow> rx" where
  \<comment> \<open>\<^verbatim>\<open>r{0,n}\<close>\<close>
  "upto 0 r = Eps"
| "upto (Suc n) r = Opt (Seq r (upto n r))"

definition digit :: rx where
  "digit = Cls [CDigit]"

definition timePattern :: regexp where
  \<comment> \<open>\<^verbatim>\<open>/(?:in|during|around|about|circa|c\.|year|century)\s+(\d{1,4}(?:\s*(?:AD|BC|BCE|CE))?|\d{1,2}(?:st|nd|rd|th)\s+century)/i\<close>\<close>
  "timePattern =
     \<lparr>pat = seqs [word_alts [''in'', ''during'', ''around'', ''about'', ''circa'', ''c.'', ''year'',
                             ''century''],
                  Plus ws,
                  Grp 1 (alts [seqs [digit, upto 3 digit,
                                     Opt (Seq (Star ws) (word_alts [''AD'', ''BC'', ''BCE'', ''CE'']))],
                               seqs [digit, upto 1 digit, word_alts [''st'', ''nd'', ''rd'', ''th''],
                                     Plus ws, Lit ''century'']])],
      icase = True, ngroups = 1\<rparr>"

definition nonLocationWords :: "string list" where
  "nonLocationWords =
     [''I'', ''You'', ''He'', ''She'', ''They'', ''We'', ''It'', ''Who'', ''What'', ''Where'', ''When'',
      ''Why'', ''How'',
      ''January'', ''February'', ''March'', ''April'', ''May'', ''June'', ''July'', ''August'',
      ''September'', ''October'', ''November'', ''December'',
      ''Monday'', ''Tuesday'', ''Wednesday'', ''Thursday'', ''Friday'', ''Saturday'', ''Sunday'',
      ''The'', ''A'', ''An'', ''And'', ''Or'', ''But'', ''If'', ''Then'', ''So'', ''Because'',
      ''Although'', ''Since'',
      ''One'', ''Two'', ''Three'', ''Four'', ''Five'', ''Six'', ''Seven'', ''Eight'', ''Nine'', ''Ten'',
      ''First'', ''Second'', ''Third'', ''Fourth'', ''Fifth'']"

definition commonLocations :: "string list" where
  "commonLocations =
     [''mediterranean'', ''europe'', ''asia'', ''africa'', ''australia'', ''antarctica'', ''america'',
      ''pacific'', ''atlantic'', ''indian ocean'', ''arctic'', ''sahara'', ''alps'', ''himalayas'']"

definition word_start :: regexp where
  \<comment> \<open>\<^verbatim>\<open>/\b\w/g\<close>\<close>
  "word_start = \<lparr>pat = Seq Wb (Cls [CWord]), icase = False, ngroups = 0\<rparr>"

definition capitalize_words :: "string \<Rightarrow> string" where
  \<comment> \<open>\<^verbatim>\<open>s.replace(/\b\w/g, c => c.toUpperCase())\<close>\<close>
  "capitalize_words s = js_replace_g word_start (\<lambda>m. map upper_ascii (matched m)) s"

definition jsval_of_group :: "string option \<Rightarrow> jsval" where
  "jsval_of_group g = (case g of None \<Rightarrow> JUndefined | Some s \<Rightarrow> JStr s)"

definition time_context :: "string \<Rightarrow> jsval" where
  \<comment> \<open>\<^verbatim>\<open>timeMatch ? timeMatch[1] : ""\<close> for the trimmed sentence\<close>
  "time_context sentence =
     (case js_match timePattern (trim sentence) of
        None \<Rightarrow> JStr []
      | Some timeMatch \<Rightarrow> jsval_of_group (mgroup timeMatch 1))"

definition name_of :: "jsval \<Rightarrow> jsval" where
  "name_of loc = get_prop loc ''name''"

fun add_capitalized :: "string \<Rightarrow> rmatch list \<Rightarrow> jsval list \<Rightarrow> jsval list" where
  "add_capitalized sentence [] locations = locations"
| "add_capitalized sentence (m # ms) locations =
     (let potentialLocation = jsval_of_group (mgroup m 1)
      in add_capitalized sentence ms
           (if potentialLocation \<notin> set (map JStr nonLocationWords)
            then locations @ [location potentialLocation (time_context sentence)]
            else locations))"

fun add_common :: "string \<Rightarrow> string list \<Rightarrow> jsval list \<Rightarrow> jsval list" where
  "add_common sentence [] locations = locations"
| "add_common sentence (loc # locs) locations =
     add_common sentence locs
       (if js_test (whole_word loc) sentence then
          (let formattedLocation = capitalize_words loc
           in if \<not> list_ex (\<lambda>existingLoc. name_of existingLoc = JStr formattedLocation) locations
              then locations @ [location (JStr formattedLocation) (time_context sentence)]
              else locations)
        else locations)"

fun scan_sentences :: "string list \<Rightarrow> jsval list \<Rightarrow> jsval list" where
  "scan_sentences [] locations = locations"
| "scan_sentences (sentence # sentences) locations =
     scan_sentences sentences
       (add_common sentence commonLocations
          (add_capitalized sentence (find_all capitalizedPattern [] sentence) locations))"

fun remove_duplicates :: "jsval list \<Rightarrow> jsval list \<Rightarrow> jsval list \<Rightarrow> jsval list" where
  \<comment> \<open>the loop over \<^verbatim>\<open>locations\<close> with the set \<^verbatim>\<open>seenLocations\<close> and the array
      \<^verbatim>\<open>uniqueLocations\<close>\<close>
  "remove_duplicates [] seenLocations uniqueLocations = uniqueLocations"
| "remove_duplicates (loc # locs) seenLocations uniqueLocations =
     (if name_of loc \<notin> set seenLocations
      then remove_duplicates locs (seenLocations @ [name_of loc]) (uniqueLocations @ [loc])
      else remove_duplicates locs seenLocations uniqueLocations)"

fun digit_char :: "nat \<Rightarrow> char" where
  "digit_char n = (''0123456789'' ! (n mod 10))"

function show_nat :: "nat \<Rightarrow> string" where
  "show_nat n = (if n < 10 then [digit_char n] else show_nat (n div 10) @ [digit_char n])"
  by pat_completeness auto
termination
  by (relation "measure id") auto

definition extractLocationsFromParagraph :: "string \<Rightarrow> jsval" where
  "extractLocationsFromParagraph txt =
     (let sentences = filter (\<lambda>s. length (trim s) > 0) (js_split sentence_end txt);
          locations = scan_sentences sentences [];
          uniqueLocations = remove_duplicates locations [] []
      in extraction_result False uniqueLocations ''driving''
           (''I found '' @ show_nat (length uniqueLocations) @
            '' locations mentioned in this text. Would you like to see them on the map?'')
           (map name_of uniqueLocations))"

subsection \<open>\<^verbatim>\<open>extractLocationsBasic\<close>\<close>

definition to_or_towards :: rx where
  \<comment> \<open>\<^verbatim>\<open>(?:to|towards?)\<close>\<close>
  "to_or_towards = alts [Lit ''to'', Seq (Lit ''toward'') (Opt (Lit ''s''))]"

definition connective :: rx where
  \<comment> \<open>\<^verbatim>\<open>(?:to|towards?|and|then)\<close>\<close>
  "connective = alts [Lit ''to'', Seq (Lit ''toward'') (Opt (Lit ''s'')), Lit ''and'', Lit ''then'']"

definition place_lazy :: rx where
  \<comment> \<open>\<^verbatim>\<open>[A-Za-z][A-Za-z\s]+?\<close>\<close>
  "place_lazy = Seq (Cls [CUpper, CLower]) (PlusL letters_ws)"

definition before_to :: rx where
  \<comment> \<open>\<^verbatim>\<open>(?=\s+(?:to|towards?)\s+)\<close>\<close>
  "before_to = Ahead (seqs [Plus ws, to_or_towards, Plus ws])"

definition before_connective_or_end :: rx where
  \<comment> \<open>\<^verbatim>\<open>(?=\s+(?:to|towards?|and|then)\s+|$)\<close>\<close>
  "before_connective_or_end = Ahead (alts [seqs [Plus ws, connective, Plus ws], Eol])"

definition after_to :: rx where
  \<comment> \<open>\<^verbatim>\<open>(?<=\s+(?:to|towards?)\s+)\<close>\<close>
  "after_to = Behind (seqs [Plus ws, to_or_towards, Plus ws])"

definition after_connective :: rx where
  \<comment> \<open>\<^verbatim>\<open>(?<=\s+(?:to|towards?|and|then)\s+)\<close>\<close>
  "after_connective = Behind (seqs [Plus ws, connective, Plus ws])"

definition later_places :: "rx list" where
  \<comment> \<open>the second to fifth alternatives, which the two patterns share\<close>
  "later_places =
     [seqs [after_to, Grp 2 place_lazy, before_connective_or_end],
      seqs [after_connective, Grp 3 place_lazy, before_connective_or_end],
      seqs [after_connective, Grp 4 place_lazy, before_connective_or_end],
      seqs [after_connective, Grp 5 place_lazy, Ahead (alts [ws, Eol])]]"

definition routePatterns :: "regexp list" where
  "routePatterns =
     [\<lparr>pat = alts (seqs [Wb, word_alts [''from'', ''in''], Plus ws, Grp 1 place_lazy, before_to]
                    # later_places),
       icase = True, ngroups = 5\<rparr>,
      \<lparr>pat = alts (seqs [Bol, Grp 1 place_lazy, before_to] # later_places),
       icase = True, ngroups = 5\<rparr>]"

definition simpleRoutePatterns :: "regexp list" where
  "simpleRoutePatterns = [fromToChain, toChain]"

definition clean_waypoint :: "string \<Rightarrow> string" where
  \<comment> \<open>\<^verbatim>\<open>wp.trim().replace(/[,.:;]+$/, '').trim()\<close>\<close>
  "clean_waypoint wp = trim (js_replace trailing_list_marks (\<lambda>_. []) (trim wp))"

definition captured_waypoints :: "rmatch \<Rightarrow> string list" where
  \<comment> \<open>\<^verbatim>\<open>match.slice(1).filter(wp => wp).map(...).filter(wp => wp.length > 0)\<close>\<close>
  "captured_waypoints m =
     filter (\<lambda>wp. length wp > 0)
       (map clean_waypoint
          (concat (map (\<lambda>g. case g of Some wp \<Rightarrow> (if wp \<noteq> [] then [wp] else []) | None \<Rightarrow> [])
                       (tl (groups m)))))"

fun try_simple_patterns :: "regexp list \<Rightarrow> string \<Rightarrow> string list option" where
  "try_simple_patterns [] txt = None"
| "try_simple_patterns (pattern # patterns) txt =
     (case js_match pattern txt of
        Some m \<Rightarrow>
          (let waypoints = captured_waypoints m
           in if length waypoints \<ge> 2 then Some waypoints else try_simple_patterns patterns txt)
      | None \<Rightarrow> try_simple_patterns patterns txt)"

definition all_pattern_matches :: "string \<Rightarrow> string list" where
  "all_pattern_matches txt =
     concat (map (\<lambda>pattern. concat (map captured_waypoints (find_all pattern [] txt))) routePatterns)"

fun unique :: "'a list \<Rightarrow> 'a list" where
  \<comment> \<open>\<^verbatim>\<open>[...new Set(xs)]\<close>: every value once, in the order of its first occurrence\<close>
  "unique [] = []"
| "unique (x # xs) = x # unique (filter (\<lambda>y. y \<noteq> x) xs)"

definition punctuation_run :: regexp where
  \<comment> \<open>\<^verbatim>\<open>/[,.?!:;]+$/\<close>\<close>
  "punctuation_run =
     \<lparr>pat = Seq (Plus (Cls [CChar CHR '','', CChar CHR ''.'', CChar CHR ''?'', CChar CHR ''!'',
                             CChar CHR '':'', CChar CHR '';''])) Eol,
      icase = False, ngroups = 0\<rparr>"

definition before_conjunction :: regexp where
  \<comment> \<open>\<^verbatim>\<open>/(.*?)(?:\s+and\s+|\s+then\s+)/i\<close>\<close>
  "before_conjunction =
     \<lparr>pat = seqs [Grp 1 (StarL Dot),
                  alts [seqs [Plus ws, Lit ''and'', Plus ws], seqs [Plus ws, Lit ''then'', Plus ws]]],
      icase = True, ngroups = 1\<rparr>"

fun later_locations :: "string list \<Rightarrow> js_error + string list" where
  \<comment> \<open>the loop of the manual split over \<^verbatim>\<open>parts[1]\<close>, \<^verbatim>\<open>parts[2]\<close>, ...\<close>
  "later_locations [] = Inr []"
| "later_locations (part # parts) =
     (let loc = trim (js_replace punctuation_run (\<lambda>_. []) (trim part))
      in then_js
           (case js_match before_conjunction loc of
              Some conjMatch \<Rightarrow> then_js (str_of (mgroup conjMatch 1)) (\<lambda>g. Inr (trim g))
            | None \<Rightarrow> Inr loc)
           (\<lambda>loc. then_js (later_locations parts) (\<lambda>rest. Inr (loc # rest))))"

definition manual_split :: "string \<Rightarrow> (js_error + string list) option" where
  \<comment> \<open>lines 653-678\<close>
  "manual_split txt =
     (if str_includes (toLowerCase txt) ''from'' \<and> str_includes (toLowerCase txt) ''to'' then
        (case js_split ws_to_ws txt of
           first # second # others \<Rightarrow>
             Some (then_js
                     (case js_match from_rest first of
                        Some firstLoc \<Rightarrow> then_js (str_of (mgroup firstLoc 1)) (\<lambda>g. Inr (trim g))
                      | None \<Rightarrow> Inr (trim first))
                     (\<lambda>firstLoc. then_js (later_locations (second # others))
                        (\<lambda>rest. Inr (firstLoc # rest))))
         | _ \<Rightarrow> None)
      else None)"

definition placeNameRegex :: regexp where
  "placeNameRegex = capitalizedPattern"

definition nonLocationWords_basic :: "string list" where
  "nonLocationWords_basic =
     [''I'', ''You'', ''He'', ''She'', ''They'', ''We'', ''It'', ''Who'', ''What'', ''Where'', ''When'',
      ''Why'', ''How'',
      ''January'', ''February'', ''March'', ''April'', ''May'', ''June'', ''July'', ''August'',
      ''September'', ''October'', ''November'', ''December'',
      ''Monday'', ''Tuesday'', ''Wednesday'', ''Thursday'', ''Friday'', ''Saturday'', ''Sunday'',
      ''The'', ''A'', ''An'', ''And'', ''Or'', ''But'', ''If'', ''Then'', ''So'', ''Because'', ''Route'',
      ''Path'', ''Map'', ''Directions'', ''Show'', ''Get'', ''Find'', ''Create'', ''Make'', ''Give'']"

definition commonLocations_basic :: "(string \<times> string list) list" where
  \<comment> \<open>\<^verbatim>\<open>name\<close> and \<^verbatim>\<open>check\<close>\<close>
  "commonLocations_basic =
     [(''New York'', [''new york'', ''nyc'']),
      (''Los Angeles'', [''los angeles'', ''la'']),
      (''San Francisco'', [''san francisco'', ''sf'']),
      (''Chicago'', [''chicago'']),
      (''Boston'', [''boston'']),
      (''Washington DC'', [''washington dc'', ''washington d.c.'', ''dc'']),
      (''Seattle'', [''seattle'']),
      (''Miami'', [''miami'']),
      (''London'', [''london'']),
      (''Paris'', [''paris'']),
      (''Tokyo'', [''tokyo'']),
      (''Beijing'', [''beijing'', ''peking'']),
      (''Sydney'', [''sydney'']),
      (''Mediterranean'', [''mediterranean'']),
      (''China'', [''china'']),
      (''Africa'', [''africa'']),
      (''Constantinople'', [''constantinople'', ''istanbul'']),
      (''Europe'', [''europe'']),
      (''Asia'', [''asia'']),
      (''America'', [''america'']),
      (''Australia'', [''australia''])]"

fun add_common_basic :: "string \<Rightarrow> (string \<times> string list) list \<Rightarrow> string list \<Rightarrow> string list" where
  "add_common_basic lowerText [] locations = locations"
| "add_common_basic lowerText ((name, check) # locs) locations =
     add_common_basic lowerText locs
       (let shouldAdd = list_ex (\<lambda>checkTerm. str_includes lowerText checkTerm) check
        in if shouldAdd \<and> name \<notin> set locations then locations @ [name] else locations)"

definition connective_word :: regexp where
  \<comment> \<open>\<^verbatim>\<open>/\b(from|to|and|then|towards?)\b/\<close>\<close>
  "connective_word =
     \<lparr>pat = seqs [Wb, Grp 1 (alts [Lit ''from'', Lit ''to'', Lit ''and'', Lit ''then'',
                                     Seq (Lit ''toward'') (Opt (Lit ''s''))]), Wb],
      icase = False, ngroups = 1\<rparr>"

definition only_connective :: regexp where
  \<comment> \<open>\<^verbatim>\<open>/^(from|to|and|then|towards?)$/\<close>\<close>
  "only_connective =
     \<lparr>pat = seqs [Bol, Grp 1 (alts [Lit ''from'', Lit ''to'', Lit ''and'', Lit ''then'',
                                     Seq (Lit ''toward'') (Opt (Lit ''s''))]), Eol],
      icase = False, ngroups = 1\<rparr>"

function split_caps_loop :: "regexp \<Rightarrow> string \<Rightarrow> string \<Rightarrow> string \<Rightarrow> string option list" where
  "split_caps_loop re lp seg [] = [Some (rev seg)]"
| "split_caps_loop re lp seg (c # cs) =
     (case match_here re (seg @ lp) (c # cs) of
        None \<Rightarrow> split_caps_loop re lp (c # seg) cs
      | Some m \<Rightarrow>
          if matched m = [] then
            (if seg = [] then split_caps_loop re lp (c # seg) cs
             else Some (rev seg) # tl (groups m) @ split_caps_loop re (seg @ lp) [] (c # cs))
          else Some (rev seg) # tl (groups m) @
               split_caps_loop re (rev (matched m) @ seg @ lp) [] (after m))"
  by pat_completeness auto
termination
  by (relation "measures [\<lambda>(re, lp, seg, r). length r, \<lambda>(re, lp, seg, r). length seg]")
     (auto dest: match_here_after_less)

definition js_split_caps :: "regexp \<Rightarrow> string \<Rightarrow> string option list" where
  \<comment> \<open>\<^verbatim>\<open>split\<close> for a pattern with capture groups: the captures of each separator follow the
      piece before it\<close>
  "js_split_caps re s =
     (if s = [] then (if match_here re [] [] = None then [Some []] else [])
      else split_caps_loop re [] [] s)"

fun scan_route_tokens :: "string option list \<Rightarrow> string list \<Rightarrow> js_error + string list" where
  "scan_route_tokens [] locations = Inr locations"
| "scan_route_tokens [token] locations = Inr locations"
| "scan_route_tokens (token # next # tokens) locations =
     (if token \<in> set [Some ''from'', Some ''to'', Some ''towards'', Some ''toward''] then
        then_js (str_of next)
          (\<lambda>next_text.
             let potentialLoc = trim next_text
             in scan_route_tokens (next # tokens)
                  (if potentialLoc \<noteq> [] \<and> length potentialLoc > 1 \<and>
                      \<not> js_test only_connective potentialLoc
                   then (let formattedLoc = capitalize_words potentialLoc
                         in if formattedLoc \<notin> set locations then locations @ [formattedLoc]
                            else locations)
                   else locations))
      else scan_route_tokens (next # tokens) locations)"

definition general_locations :: "string \<Rightarrow> js_error + string list" where
  \<comment> \<open>lines 680-751\<close>
  "general_locations txt =
     (let potentialLocations = map matched (find_all placeNameRegex [] txt);
          locations = filter (\<lambda>loc. loc \<notin> set nonLocationWords_basic) potentialLocations;
          lowerText = toLowerCase txt;
          locations = add_common_basic lowerText commonLocations_basic locations
      in if str_includes lowerText ''route'' \<or> str_includes lowerText '' to '' \<or>
            str_includes lowerText ''from''
         then scan_route_tokens (js_split_caps connective_word lowerText) locations
         else Inr locations)"

definition extractLocationsBasic :: "string \<Rightarrow> js_error + string list" where
  "extractLocationsBasic txt =
     (case try_simple_patterns simpleRoutePatterns txt of
        Some waypoints \<Rightarrow> Inr waypoints
      | None \<Rightarrow>
          (let allMatches = all_pattern_matches txt
           in if length allMatches \<ge> 2 then Inr (unique allMatches)
              else (case manual_split txt of
                      Some locations \<Rightarrow> locations
                    | None \<Rightarrow> general_locations txt)))"

subsection \<open>The language-model stage of \<^verbatim>\<open>processNaturalLanguageInput\<close>\<close>

text \<open>
  What the network and \<^verbatim>\<open>JSON.parse\<close> do is a parameter of the model: the outcome of
  \<^verbatim>\<open>fetch\<close> (rejected, or a response with its \<^verbatim>\<open>ok\<close> flag and the value of
  \<^verbatim>\<open>response.json()\<close>, if the body is JSON), and \<^verbatim>\<open>JSON.parse\<close> as a function from texts
  to values that gives \<^verbatim>\<open>None\<close> where it throws.
\<close>

datatype fetch_outcome = FetchRejected | FetchResponse bool "jsval option"

type_synonym json_parser = "string \<Rightarrow> jsval option"

definition json_object_text :: regexp where
  \<comment> \<open>\<^verbatim>\<open>/{[\s\S]*?}/\<close>\<close>
  "json_object_text =
     \<lparr>pat = seqs [Lit ''{'', StarL (Cls [CSpace, CNonSpace]), Lit ''}''], icase = False, ngroups = 0\<rparr>"

definition line_breaks :: regexp where
  \<comment> \<open>\<^verbatim>\<open>/[\r\n]+/g\<close>\<close>
  "line_breaks = \<lparr>pat = Plus (Cls [CChar CHR 0x0D, CChar CHR 0x0A]), icase = False, ngroups = 0\<rparr>"

definition double_quote :: regexp where
  \<comment> \<open>the pattern of the two replacements of a double quote by a double quote\<close>
  "double_quote = \<lparr>pat = Lit [CHR 0x22], icase = False, ngroups = 0\<rparr>"

fun set_prop :: "jsval \<Rightarrow> string \<Rightarrow> jsval \<Rightarrow> jsval" where
  "set_prop (JObj kvs) k v =
     JObj (if k \<in> set (map fst kvs) then map (\<lambda>(k', v'). if k' = k then (k', v) else (k', v')) kvs
           else kvs @ [(k, v)])"
| "set_prop x k v = x"

fun is_string :: "jsval \<Rightarrow> bool" where
  "is_string (JStr s) = True"
| "is_string v = False"

definition string_to_location :: "jsval \<Rightarrow> jsval" where
  \<comment> \<open>\<^verbatim>\<open>typeof loc === 'string' ? { name: loc, timeContext: "" } : loc\<close>\<close>
  "string_to_location loc = (if is_string loc then location loc (JStr []) else loc)"

definition has_name :: "jsval \<Rightarrow> bool" where
  \<comment> \<open>\<^verbatim>\<open>loc && loc.name && typeof loc.name === 'string'\<close>\<close>
  "has_name loc = (truthy loc \<and> truthy (get_prop loc ''name'') \<and> is_string (get_prop loc ''name''))"

definition checked_result :: "json_parser \<Rightarrow> string \<Rightarrow> js_error + jsval" where
  \<comment> \<open>lines 363-380 (and 390-407): parse the text, check and repair \<^verbatim>\<open>result.locations\<close>\<close>
  "checked_result parse json_text =
     (case parse json_text of
        None \<Rightarrow> Inl SyntaxError
      | Some result \<Rightarrow>
          then_js (js_member result ''locations'')
            (\<lambda>locations.
               case locations of
                 JArr locs \<Rightarrow>
                   (let locs = (if list_ex is_string locs then map string_to_location locs else locs);
                        locs = filter has_name locs
                    in Inr (set_prop result ''locations'' (JArr locs)))
               | _ \<Rightarrow> Inl (Error ''Invalid locations data in API response'')))"

definition result_of_response_text :: "json_parser \<Rightarrow> string \<Rightarrow> js_error + jsval" where
  \<comment> \<open>lines 359-415\<close>
  "result_of_response_text parse responseText =
     (case js_match json_object_text responseText of
        None \<Rightarrow> Inl (Error ''Could not parse JSON from Gemini response'')
      | Some jsonMatch \<Rightarrow>
          (case checked_result parse (matched jsonMatch) of
             Inr result \<Rightarrow> Inr result
           | Inl parseError \<Rightarrow>
               (case js_match json_object_text
                       (js_replace_g double_quote (\<lambda>_. [CHR 0x22])
                          (js_replace_g double_quote (\<lambda>_. [CHR 0x22])
                             (js_replace_g line_breaks (\<lambda>_. '' '') responseText))) of
                  None \<Rightarrow> Inl (Error ''Could not parse JSON from Gemini response'')
                | Some fixedJson \<Rightarrow>
                    (case checked_result parse (matched fixedJson) of
                       Inr result \<Rightarrow> Inr result
                     | Inl e \<Rightarrow> Inl (Error ''Failed to parse JSON even with lenient approach'')))))"

definition language_model_stage :: "json_parser \<Rightarrow> fetch_outcome \<Rightarrow> js_error + jsval" where
  \<comment> \<open>the \<^verbatim>\<open>try\<close> block, lines 327-415\<close>
  "language_model_stage parse outcome =
     (case outcome of
        FetchRejected \<Rightarrow> Inl TypeError
      | FetchResponse ok body \<Rightarrow>
          if \<not> ok then Inl (Error ''Gemini API request failed'')
          else
            (case body of
               None \<Rightarrow> Inl SyntaxError
             | Some data \<Rightarrow>
                 then_js (js_member data ''candidates'')
                   (\<lambda>candidates.
                      if \<not> truthy candidates \<or> get_prop candidates ''length'' = JNum 0
                      then Inl (Error ''No response from Gemini API'')
                      else
                        then_js (js_member (get_prop candidates ''0'') ''content'')
                          (\<lambda>content. then_js (js_member content ''parts'')
                             (\<lambda>parts. then_js (js_member parts ''0'')
                                (\<lambda>part. then_js (js_member part ''text'')
                                   (\<lambda>responseText.
                                      case responseText of
                                        JStr t \<Rightarrow> result_of_response_text parse t
                                      | _ \<Rightarrow> Inl TypeError)))))))"

subsection \<open>The fallbacks of \<^verbatim>\<open>processNaturalLanguageInput\<close>\<close>

definition mode_in_text :: "string \<Rightarrow> string" where
  \<comment> \<open>\<^verbatim>\<open>inputText.match(/\b(walking|cycling|driving|transit)\b/i)?.[1]?.toLowerCase() || 'driving'\<close>\<close>
  "mode_in_text inputText =
     (case js_match mode_word inputText of
        None \<Rightarrow> ''driving''
      | Some m \<Rightarrow>
          (case mgroup m 1 of
             None \<Rightarrow> ''driving''
           | Some g \<Rightarrow> if toLowerCase g \<noteq> [] then toLowerCase g else ''driving''))"

definition fallback_multi_waypoint :: "string \<Rightarrow> jsval option" where
  \<comment> \<open>lines 446-469\<close>
  "fallback_multi_waypoint inputText =
     (case js_match fromToChain inputText of
        None \<Rightarrow> None
      | Some multiWaypointMatch \<Rightarrow>
          (let waypoints = captured_waypoints multiWaypointMatch
           in if length waypoints \<ge> 2
              then Some (route_of_waypoints (mode_in_text inputText)
                           (''Creating a route with multiple stops: '' @ join arrow waypoints)
                           waypoints)
              else None))"

definition basic_fallback :: "bool \<Rightarrow> string \<Rightarrow> js_error + jsval" where
  \<comment> \<open>lines 471-481\<close>
  "basic_fallback isLikelyRouteRequest inputText =
     then_js (extractLocationsBasic inputText)
       (\<lambda>locations. then_js (extractLocationsBasic inputText)
          (\<lambda>suggestedSequence.
             Inr (extraction_result isLikelyRouteRequest
                    (map (\<lambda>loc. location (JStr loc) (JStr [])) locations)
                    (mode_in_text inputText)
                    (if isLikelyRouteRequest
                     then ''I had trouble understanding the details, but I'' @ [CHR 0x27] @
                          ''ll try to map what I understood.''
                     else ''I found some potential locations in your text. '' @
                          ''Would you like to see them on the map?'')
                    (map JStr suggestedSequence))))"

definition after_failure :: "string \<Rightarrow> js_error + jsval" where
  \<comment> \<open>the \<^verbatim>\<open>catch\<close> block, lines 416-482\<close>
  "after_failure inputText =
     (let isLikelyRouteRequest = js_test routingKeywords inputText
      in if str_includes inputText ''Mediterranean'' \<and> str_includes inputText ''sub-Saharan Africa'' \<and>
            str_includes inputText ''China'' \<and> str_includes inputText ''Constantinople''
         then Inr gibbon_result
         else if \<not> isLikelyRouteRequest then Inr (extractLocationsFromParagraph inputText)
         else (case fallback_multi_waypoint inputText of
                 Some result \<Rightarrow> Inr result
               | None \<Rightarrow> basic_fallback isLikelyRouteRequest inputText))"

definition pattern_shortcuts :: "string \<Rightarrow> (js_error + jsval) option" where
  \<comment> \<open>lines 12-263, before the language model is called\<close>
  "pattern_shortcuts inputText =
     (case multi_waypoint_shortcut inputText of
        Some r \<Rightarrow> Some r
      | None \<Rightarrow>
          (case simple_route_shortcut inputText of
             Some r \<Rightarrow> Some (Inr r)
           | None \<Rightarrow>
               (case walking_route_shortcut inputText of
                  Some r \<Rightarrow> Some (Inr r)
                | None \<Rightarrow>
                    (case gibbon_shortcut inputText of
                       Some r \<Rightarrow> Some (Inr r)
                     | None \<Rightarrow> None))))"

definition processNaturalLanguageInput ::
  "json_parser \<Rightarrow> fetch_outcome \<Rightarrow> string \<Rightarrow> js_error + jsval" where
  "processNaturalLanguageInput parse outcome inputText =
     (case pattern_shortcuts inputText of
        Some r \<Rightarrow> r
      | None \<Rightarrow>
          (case language_model_stage parse outcome of
             Inr result \<Rightarrow> Inr result
           | Inl error \<Rightarrow> after_failure inputText))"

definition reply_with_text :: "string \<Rightarrow> fetch_outcome" where
  \<comment> \<open>a response whose body is \<^verbatim>\<open>{"candidates": [{"content": {"parts": [{"text": t}]}}]}\<close>\<close>
  "reply_with_text t =
     FetchResponse True
       (Some (JObj [(''candidates'',
                     JArr [JObj [(''content'', JObj [(''parts'', JArr [JObj [(''text'', JStr t)]])])]])]))"

section \<open>nlp-secure.js\<close>

definition transport_phrase :: regexp where
  \<comment> \<open>\<^verbatim>\<open>/(?:by|using|with|via)\s+(car|driving|walking|cycling|bike|transit|bus|train)/i\<close>\<close>
  "transport_phrase =
     \<lparr>pat = seqs [word_alts [''by'', ''using'', ''with'', ''via''], Plus ws,
                  Grp 1 (word_alts [''car'', ''driving'', ''walking'', ''cycling'', ''bike'', ''transit'',
                                   ''bus'', ''train''])],
      icase = True, ngroups = 1\<rparr>"

definition avoiding :: "string list \<Rightarrow> regexp" where
  \<comment> \<open>\<^verbatim>\<open>/avoid(?:ing)?\s+(?:a|b|...)/i\<close>\<close>
  "avoiding things =
     \<lparr>pat = seqs [Lit ''avoid'', Opt (Lit ''ing''), Plus ws, word_alts things],
      icase = True, ngroups = 0\<rparr>"

definition prepositionPattern :: regexp where
  \<comment> \<open>\<^verbatim>\<open>/(?:from|to|through|via|between|in|at)\s+([A-Z][a-zA-Z0-9\s,]+?)(?:\s+(?:to|and|through|via|,)|$)/gi\<close>\<close>
  "prepositionPattern =
     \<lparr>pat = seqs [word_alts [''from'', ''to'', ''through'', ''via'', ''between'', ''in'', ''at''], Plus ws,
                  Grp 1 (Seq (Cls [CUpper])
                           (PlusL (Cls [CLower, CUpper, CDigit, CSpace, CChar CHR '','']))),
                  alts [Seq (Plus ws) (word_alts [''to'', ''and'', ''through'', ''via'', '','']), Eol]],
      icase = True, ngroups = 1\<rparr>"

definition separatorPattern :: regexp where
  \<comment> \<open>\<^verbatim>\<open>new RegExp([' to ', ', ', ' and ', ' => ', ','].join('|'), 'gi')\<close>\<close>
  "separatorPattern =
     \<lparr>pat = word_alts ['' to '', '', '', '' and '', '' => '', '',''], icase = True, ngroups = 0\<rparr>"

definition a_letter :: regexp where
  \<comment> \<open>\<^verbatim>\<open>/[A-Za-z]/\<close>\<close>
  "a_letter = \<lparr>pat = Cls [CUpper, CLower], icase = False, ngroups = 0\<rparr>"

definition leading_request :: regexp where
  \<comment> \<open>\<^verbatim>\<open>/^(?:route|path|directions|way|road|show me|find|get|display)\s+(?:from|to|between)?\s+/i\<close>\<close>
  "leading_request =
     \<lparr>pat = seqs [Bol, word_alts [''route'', ''path'', ''directions'', ''way'', ''road'', ''show me'',
                                  ''find'', ''get'', ''display''],
                  Plus ws, Opt (word_alts [''from'', ''to'', ''between'']), Plus ws],
      icase = True, ngroups = 0\<rparr>"

definition transport_of_phrase :: "string \<Rightarrow> js_error + string" where
  \<comment> \<open>lines 1789-1801\<close>
  "transport_of_phrase query =
     (case js_match transport_phrase query of
        None \<Rightarrow> Inr ''driving''
      | Some transportModeMatch \<Rightarrow>
          then_js (str_of (mgroup transportModeMatch 1))
            (\<lambda>g. let mode = toLowerCase g
                 in Inr (if mode = ''car'' then ''driving''
                         else if mode = ''bike'' then ''cycling''
                         else if mode \<in> set [''bus'', ''train''] then ''transit''
                         else if mode \<in> set [''driving'', ''walking'', ''cycling'', ''transit''] then mode
                         else ''driving'')))"

definition preposition_locations :: "string \<Rightarrow> string list" where
  \<comment> \<open>lines 1827-1833\<close>
  "preposition_locations query =
     concat (map (\<lambda>m. case mgroup m 1 of
                         Some g \<Rightarrow> (if g \<noteq> [] \<and> trim g \<noteq> [] then [trim g] else [])
                       | None \<Rightarrow> [])
                 (find_all prepositionPattern [] query))"

definition secure_extractLocationsWithRegex :: "string \<Rightarrow> js_error + jsval" where
  "secure_extractLocationsWithRegex query =
     then_js (transport_of_phrase query)
       (\<lambda>transportMode.
          let preferences =
                preferences_obj transportMode
                  (js_test (avoiding [''toll'', ''tolls'']) query)
                  (js_test (avoiding [''highway'', ''highways'', ''freeway'', ''freeways'']) query)
                  (js_test (avoiding [''ferry'', ''ferries'']) query);
              routeMatch = js_match routePattern query
          in case (truthy_group routeMatch 1, truthy_group routeMatch 2) of
               (Some g1, Some g2) \<Rightarrow> Inr (nlp_result [trim g1, trim g2] preferences)
             | _ \<Rightarrow>
                 (let locations = preposition_locations query;
                      locations =
                        (if length locations = 0
                         then filter (\<lambda>loc. length loc > 0 \<and> js_test a_letter loc)
                                (map trim (js_split separatorPattern query))
                         else locations);
                      locations =
                        (if length locations = 0
                         then (let cleanedQuery = trim (js_replace leading_request (\<lambda>_. []) query)
                               in if cleanedQuery \<noteq> [] then [cleanedQuery] else locations)
                         else locations)
                  in Inr (nlp_result locations preferences)))"

definition defaultPreferences :: "(string \<times> jsval) list" where
  "defaultPreferences =
     [(''transportMode'', JStr ''driving''), (''avoidTolls'', JBool False),
      (''avoidHighways'', JBool False), (''avoidFerries'', JBool False)]"

fun own_entries :: "jsval \<Rightarrow> (string \<times> jsval) list" where
  \<comment> \<open>the properties an object spread copies\<close>
  "own_entries (JObj kvs) = kvs"
| "own_entries (JArr xs) = zip (map show_nat [0 ..< length xs]) xs"
| "own_entries (JStr s) = zip (map show_nat [0 ..< length s]) (map (\<lambda>c. JStr [c]) s)"
| "own_entries v = []"

definition validModes :: "string list" where
  "validModes = [''driving'', ''walking'', ''cycling'', ''transit'']"

definition validateAndFormatResponse :: "jsval \<Rightarrow> js_error + jsval" where
  \<comment> \<open>in \<^verbatim>\<open>{ ...defaultPreferences, ...response.preferences }\<close> a property of the response
      comes before the default of the same name\<close>
  "validateAndFormatResponse response =
     then_js (js_member response ''locations'')
       (\<lambda>response_locations.
          let locations = (case response_locations of JArr xs \<Rightarrow> JArr xs | _ \<Rightarrow> JArr []);
              preferences =
                (if truthy (get_prop response ''preferences'')
                 then JObj (own_entries (get_prop response ''preferences'') @ defaultPreferences)
                 else JObj defaultPreferences);
              preferences =
                (if get_prop preferences ''transportMode'' \<notin> set (map JStr validModes)
                 then set_prop preferences ''transportMode'' (JStr ''driving'')
                 else preferences)
          in Inr (JObj [(''locations'', locations), (''preferences'', preferences)]))"

definition at_least_two :: "jsval \<Rightarrow> bool" where
  \<comment> \<open>\<^verbatim>\<open>v && v.length >= 2\<close> where \<^verbatim>\<open>v\<close> is an array, a text, or has no \<^verbatim>\<open>length\<close> (then
      \<^verbatim>\<open>undefined >= 2\<close> is false), as in the two modules that use it\<close>
  "at_least_two v = (truthy v \<and> (case get_prop v ''length'' of JNum n \<Rightarrow> n \<ge> 2 | _ \<Rightarrow> False))"

definition keyword :: "string list \<Rightarrow> regexp" where
  \<comment> \<open>\<^verbatim>\<open>/a|b|.../i\<close>\<close>
  "keyword alternatives = \<lparr>pat = word_alts alternatives, icase = True, ngroups = 0\<rparr>"

definition has_fallback :: "js_error \<Rightarrow> bool" where
  \<comment> \<open>\<^verbatim>\<open>error.fallback\<close>: no error thrown in this module has the property\<close>
  "has_fallback error = False"

definition secure_processNaturalLanguage ::
  "js_error + jsval \<Rightarrow> js_error + jsval \<Rightarrow> string \<Rightarrow> js_error + jsval" where
  \<comment> \<open>\<^verbatim>\<open>functionCall\<close> is what \<^verbatim>\<open>fetchGeminiWithFunctionCalling(query)\<close> returns or throws,
      \<^verbatim>\<open>prompted\<close> what \<^verbatim>\<open>fetchGeminiResponse(prompt)\<close> does\<close>
  "secure_processNaturalLanguage functionCall prompted query =
     (let first_attempt =
            then_js (secure_extractLocationsWithRegex query)
              (\<lambda>regexLocations.
                 if at_least_two regexLocations then
                   Inr (JObj [(''locations'', regexLocations),
                              (''preferences'',
                               preferences_obj
                                 (if js_test (keyword [''walk'', ''walking'', ''on foot'']) query
                                  then ''walking''
                                  else if js_test (keyword [''cycl'', ''bike'', ''biking'', ''bicycle'']) query
                                  then ''cycling'' else ''driving'')
                                 (js_test (keyword [''no toll'', ''avoid toll'', ''without toll'']) query)
                                 (js_test (keyword [''no highway'', ''avoid highway'', ''without highway'']) query)
                                 (js_test (keyword [''no ferr'', ''avoid ferr'', ''without ferr'']) query))])
                 else then_js functionCall validateAndFormatResponse);
          second_attempt =
            (case then_js prompted validateAndFormatResponse of
               Inr r \<Rightarrow> Inr r
             | Inl secondError \<Rightarrow> secure_extractLocationsWithRegex query)
      in case first_attempt of
           Inr r \<Rightarrow> Inr r
         | Inl error \<Rightarrow>
             if has_fallback error then
               then_js (secure_extractLocationsWithRegex query)
                 (\<lambda>regexLocations.
                    if at_least_two regexLocations
                    then Inr (JObj [(''locations'', regexLocations),
                                    (''preferences'', JObj defaultPreferences)])
                    else second_attempt)
             else second_attempt)"

section \<open>script.js\<close>

subsection \<open>\<^verbatim>\<open>matchPartialCityName\<close> and \<^verbatim>\<open>extractBasicRouteLocations\<close>\<close>

definition commonCities :: "string list" where
  "commonCities =
     [''New York'', ''Los Angeles'', ''San Francisco'', ''Las Vegas'', ''San Diego'',
      ''Washington DC'', ''New Orleans'', ''San Jose'', ''Saint Louis'', ''St Louis'',
      ''Mexico City'', ''New Delhi'', ''Hong Kong'', ''Rio de Janeiro'', ''Buenos Aires'',
      ''Tel Aviv'', ''St Petersburg'', ''Central Park'', ''Times Square'']"

definition matchPartialCityName :: "string \<Rightarrow> string list \<Rightarrow> string option" where
  "matchPartialCityName partialName cityList =
     (if partialName = [] then None
      else
        let cleaned = toLowerCase (trim partialName)
        in case find (\<lambda>city. toLowerCase city = cleaned) cityList of
             Some city \<Rightarrow> Some city
           | None \<Rightarrow>
               find (\<lambda>city. let cityWords = js_split ws_run (toLowerCase city)
                             in length cityWords > 1 \<and> hd cityWords = cleaned) cityList)"

definition full_name :: "string \<Rightarrow> string" where
  \<comment> \<open>\<^verbatim>\<open>matchPartialCityName(name, commonCities) || name\<close>\<close>
  "full_name name =
     (case matchPartialCityName name commonCities of
        Some city \<Rightarrow> (if city \<noteq> [] then city else name)
      | None \<Rightarrow> name)"

definition route_end :: rx where
  \<comment> \<open>\<^verbatim>\<open>(?:$|\.|\s+via\s+|\s+through\s+)\<close>\<close>
  "route_end = alts [Eol, Lit ''.'', seqs [Plus ws, Lit ''via'', Plus ws],
                     seqs [Plus ws, Lit ''through'', Plus ws]]"

definition specificRoutePattern :: regexp where
  \<comment> \<open>\<^verbatim>\<open>/(?:walking|driving|cycling|biking)?\s*route\s+(?:from\s+)?(.*?)\s+to\s+(.*?)(?:$|\.|\s+via\s+|\s+through\s+)/i\<close>\<close>
  "specificRoutePattern =
     \<lparr>pat = seqs [Opt (word_alts [''walking'', ''driving'', ''cycling'', ''biking'']), Star ws,
                  Lit ''route'', Plus ws, Opt (Seq (Lit ''from'') (Plus ws)),
                  Grp 1 (StarL Dot), Plus ws, Lit ''to'', Plus ws, Grp 2 (StarL Dot), route_end],
      icase = True, ngroups = 2\<rparr>"

definition fromToPattern :: regexp where
  \<comment> \<open>\<^verbatim>\<open>/(?:from|in)\s+(.*?)\s+to\s+(.*?)(?:$|\.|\s+via\s+|\s+through\s+)/i\<close>\<close>
  "fromToPattern =
     \<lparr>pat = seqs [word_alts [''from'', ''in''], Plus ws,
                  Grp 1 (StarL Dot), Plus ws, Lit ''to'', Plus ws, Grp 2 (StarL Dot), route_end],
      icase = True, ngroups = 2\<rparr>"

definition toPattern :: regexp where
  \<comment> \<open>\<^verbatim>\<open>/^(.*?)\s+to\s+(.*?)(?:$|\.|\s+via\s+|\s+through\s+)/i\<close>\<close>
  "toPattern =
     \<lparr>pat = seqs [Bol, Grp 1 (StarL Dot), Plus ws, Lit ''to'', Plus ws, Grp 2 (StarL Dot), route_end],
      icase = True, ngroups = 2\<rparr>"

definition leading_separators :: regexp where
  \<comment> \<open>\<^verbatim>\<open>/^[\s,;:]+/\<close>\<close>
  "leading_separators =
     \<lparr>pat = Seq Bol (Plus (Cls [CSpace, CChar CHR '','', CChar CHR '';'', CChar CHR '':''])),
      icase = False, ngroups = 0\<rparr>"

definition trailing_separators :: regexp where
  \<comment> \<open>\<^verbatim>\<open>/[\s,;:.!?]+$/\<close>\<close>
  "trailing_separators =
     \<lparr>pat = Seq (Plus (Cls [CSpace, CChar CHR '','', CChar CHR '';'', CChar CHR '':'', CChar CHR ''.'',
                             CChar CHR ''!'', CChar CHR ''?''])) Eol,
      icase = False, ngroups = 0\<rparr>"

definition leading_route_word :: regexp where
  \<comment> \<open>\<^verbatim>\<open>/^(walking|driving|cycling|route|path|directions?)\s+/i\<close>\<close>
  "leading_route_word =
     \<lparr>pat = seqs [Bol, Grp 1 (alts [Lit ''walking'', Lit ''driving'', Lit ''cycling'', Lit ''route'',
                                     Lit ''path'', Seq (Lit ''direction'') (Opt (Lit ''s''))]), Plus ws],
      icase = True, ngroups = 1\<rparr>"

definition pair_of_match :: "rmatch option \<Rightarrow> string list option" where
  \<comment> \<open>when \<^verbatim>\<open>m && m[1] && m[2]\<close>: the two names, trimmed and completed\<close>
  "pair_of_match mo =
     (case (truthy_group mo 1, truthy_group mo 2) of
        (Some g1, Some g2) \<Rightarrow> Some [full_name (trim g1), full_name (trim g2)]
      | _ \<Rightarrow> None)"

definition multiple_waypoints :: "string \<Rightarrow> string list option" where
  \<comment> \<open>lines 430-456\<close>
  "multiple_waypoints normalizedText =
     (if str_includes (toLowerCase normalizedText) ''from'' \<and>
         length (js_match_g (whole_word ''to'') normalizedText) \<ge> 2
      then
        (case js_split (whole_word ''from'') (toLowerCase normalizedText) of
           first # second # others \<Rightarrow>
             (let parts = js_split (whole_word ''to'') second
              in if length parts \<ge> 2 then
                   (let waypoints =
                          filter (\<lambda>part. length part > 0)
                            (map (\<lambda>part. js_replace trailing_separators (\<lambda>_. [])
                                           (js_replace leading_separators (\<lambda>_. []) (trim part)))
                                 parts)
                    in Some (map full_name waypoints))
                 else None)
         | _ \<Rightarrow> None)
      else None)"

definition clean_split_part :: "string \<Rightarrow> string \<Rightarrow> string" where
  \<comment> \<open>lines 478-495, for the part \<^verbatim>\<open>part\<close> of a split whose first part is \<^verbatim>\<open>first\<close>\<close>
  "clean_split_part first part =
     (let cleaned = trim part;
          cleaned =
            (if part = first then
               (let cleaned = (if startsWith (toLowerCase cleaned) ''from ''
                               then trim (drop 5 cleaned) else cleaned)
                in trim (js_replace leading_route_word (\<lambda>_. []) cleaned))
             else cleaned)
      in trim (js_replace punctuation_run (\<lambda>_. []) cleaned))"

definition extractBasicRouteLocations :: "string \<Rightarrow> string list" where
  "extractBasicRouteLocations txt =
     (if txt = [] then []
      else
        let normalizedText = trim (js_replace trailing_marks (\<lambda>_. []) (trim txt))
        in case pair_of_match (js_match specificRoutePattern normalizedText) of
             Some names \<Rightarrow> names
           | None \<Rightarrow>
               (case pair_of_match (js_match fromToPattern normalizedText) of
                  Some names \<Rightarrow> names
                | None \<Rightarrow>
                    (case multiple_waypoints normalizedText of
                       Some names \<Rightarrow> names
                     | None \<Rightarrow>
                         (case pair_of_match (js_match toPattern normalizedText) of
                            Some names \<Rightarrow> names
                          | None \<Rightarrow>
                              (case js_split ws_to_ws normalizedText of
                                 first # second # others \<Rightarrow>
                                   map full_name
                                     (filter (\<lambda>p. length p > 0)
                                        (map (clean_split_part first) (first # second # others)))
                               | _ \<Rightarrow> [])))))"

subsection \<open>The click handler after a failure or a timeout, and \<^verbatim>\<open>handleProcessedResult\<close>\<close>

definition avoid_strings :: "jsval \<Rightarrow> jsval list" where
  \<comment> \<open>lines 256-260\<close>
  "avoid_strings preferences =
     filter truthy
       [if truthy (get_prop preferences ''avoidTolls'') then JStr ''avoid tolls'' else JNull,
        if truthy (get_prop preferences ''avoidHighways'') then JStr ''avoid highways'' else JNull,
        if truthy (get_prop preferences ''avoidFerries'') then JStr ''avoid ferries'' else JNull]"

fun elements :: "jsval \<Rightarrow> jsval list" where
  "elements (JArr xs) = xs"
| "elements v = []"

fun string_of :: "jsval \<Rightarrow> string" where
  "string_of (JStr s) = s"
| "string_of v = []"

definition regex_fallback :: "string \<Rightarrow> js_error + jsval option" where
  \<comment> \<open>lines 246-284: the result handed to \<^verbatim>\<open>handleProcessedResult\<close>, or nothing where a
      message is displayed instead\<close>
  "regex_fallback inputValue =
     then_js (nlp_extractLocationsWithRegex inputValue)
       (\<lambda>regexResult.
          if truthy regexResult \<and> truthy (get_prop regexResult ''locations'') \<and>
             at_least_two (get_prop regexResult ''locations'')
          then
            (let locations = elements (get_prop regexResult ''locations'');
                 preferences = get_prop regexResult ''preferences'';
                 transportMode = get_prop preferences ''transportMode''
             in Inr (Some (JObj
                  [(''isRouteRequest'', JBool True),
                   (''locations'', JArr (map (\<lambda>loc. location loc (JStr [])) locations)),
                   (''travelMode'', if truthy transportMode then transportMode else JStr ''driving''),
                   (''preferences'', JArr (avoid_strings preferences)),
                   (''message'',
                    JStr (''Creating a route between '' @ join '' and '' (map string_of locations))),
                   (''suggestedSequence'', JArr locations)])))
          else
            (let basicLocations = extractBasicRouteLocations inputValue
             in if length basicLocations \<ge> 2
                then Inr (Some (extraction_result True
                                  (map (\<lambda>loc. location (JStr loc) (JStr [])) basicLocations)
                                  ''driving''
                                  (''Creating a route between '' @ join '' and '' basicLocations)
                                  (map JStr basicLocations)))
                else Inr None))"

datatype page_action =
    NoLocationsMessage
  | CreateRoute jsval jsval jsval
  | ShowLocations jsval

fun names_of :: "jsval list \<Rightarrow> js_error + jsval list" where
  \<comment> \<open>\<^verbatim>\<open>locations.map(loc => loc.name)\<close>\<close>
  "names_of [] = Inr []"
| "names_of (loc # locs) =
     then_js (js_member loc ''name'') (\<lambda>name. then_js (names_of locs) (\<lambda>names. Inr (name # names)))"

text \<open>
  A comparison such as \<^verbatim>\<open>v.length >= 2\<close> converts its left operand to a number.  For the values
  of this model the conversion gives an integer, or no number at all, or is the conversion of a
  text; how the number that a text converts to compares with an integer is a parameter of the
  model.
\<close>

datatype operand = Num int | NaN | Text string

fun array_operand :: "jsval \<Rightarrow> operand" where
  \<comment> \<open>the number of \<^verbatim>\<open>[x]\<close> is the number of the text of \<^verbatim>\<open>x\<close>; the text of an array with two
      entries or more has a comma and is no number\<close>
  "array_operand JUndefined = Num 0"
| "array_operand JNull = Num 0"
| "array_operand (JBool b) = NaN"
| "array_operand (JNum k) = Num k"
| "array_operand (JStr s) = Text s"
| "array_operand (JArr []) = Num 0"
| "array_operand (JArr [x]) = array_operand x"
| "array_operand (JArr (x # y # zs)) = NaN"
| "array_operand (JObj kvs) = NaN"

fun operand_of :: "jsval \<Rightarrow> operand" where
  "operand_of JUndefined = NaN"
| "operand_of JNull = Num 0"
| "operand_of (JBool b) = Num (if b then 1 else 0)"
| "operand_of (JNum k) = Num k"
| "operand_of (JStr s) = Text s"
| "operand_of (JArr xs) = array_operand (JArr xs)"
| "operand_of (JObj kvs) = NaN"

record text_order =
  text_ge :: "string \<Rightarrow> int \<Rightarrow> bool"
  text_gt :: "string \<Rightarrow> int \<Rightarrow> bool"

definition js_ge :: "text_order \<Rightarrow> jsval \<Rightarrow> int \<Rightarrow> bool" where
  \<comment> \<open>\<^verbatim>\<open>v >= n\<close>\<close>
  "js_ge order v n =
     (case operand_of v of Num k \<Rightarrow> k \<ge> n | NaN \<Rightarrow> False | Text s \<Rightarrow> text_ge order s n)"

definition js_gt :: "text_order \<Rightarrow> jsval \<Rightarrow> int \<Rightarrow> bool" where
  \<comment> \<open>\<^verbatim>\<open>v > n\<close>\<close>
  "js_gt order v n =
     (case operand_of v of Num k \<Rightarrow> k > n | NaN \<Rightarrow> False | Text s \<Rightarrow> text_gt order s n)"

definition preferences_in_message :: "text_order \<Rightarrow> jsval \<Rightarrow> js_error + unit" where
  \<comment> \<open>line 315: \<^verbatim>\<open>result.preferences && result.preferences.length > 0 ? ... result.preferences.join(', ') : ''\<close>;
      only an array has \<^verbatim>\<open>join\<close>, on every other value the call throws\<close>
  "preferences_in_message order preferences =
     (if truthy preferences \<and> js_gt order (get_prop preferences ''length'') 0
      then (case preferences of JArr xs \<Rightarrow> Inr () | _ \<Rightarrow> Inl TypeError)
      else Inr ())"

definition handleProcessedResult :: "text_order \<Rightarrow> jsval \<Rightarrow> js_error + page_action" where
  \<comment> \<open>which of the three branches is taken, or the error thrown on the way: \<^verbatim>\<open>CreateRoute\<close>
      carries the arguments of \<^verbatim>\<open>createRoute\<close>\<close>
  "handleProcessedResult order result =
     then_js (js_member result ''locations'')
       (\<lambda>locations.
          if \<not> truthy locations \<or> get_prop locations ''length'' = JNum 0 then Inr NoLocationsMessage
          else
            (case locations of
               JArr locs \<Rightarrow>
                 then_js (names_of locs)
                   (\<lambda>locationNames.
                      if truthy (get_prop result ''isRouteRequest'') \<and> length locationNames \<ge> 2 then
                        then_js (preferences_in_message order (get_prop result ''preferences''))
                          (\<lambda>shown.
                             let suggestedSequence = get_prop result ''suggestedSequence'';
                                 routeLocations =
                                   (if truthy suggestedSequence \<and>
                                       js_ge order (get_prop suggestedSequence ''length'') 2
                                    then suggestedSequence else JArr locationNames);
                                 travelMode = get_prop result ''travelMode'';
                                 preferences = get_prop result ''preferences''
                             in Inr (CreateRoute routeLocations
                                       (if truthy travelMode then travelMode else JStr ''driving'')
                                       (if truthy preferences then preferences else JArr [])))
                      else if length locationNames > 0 then Inr (ShowLocations locations)
                      else Inr NoLocationsMessage)
             | _ \<Rightarrow> Inl TypeError))"


definition createRoute_travelMode :: "jsval \<Rightarrow> string" where
  \<comment> \<open>enhanced-nlp.js, lines 1048-1049\<close>
  "createRoute_travelMode travelMode =
     (case travelMode of
        JStr mode \<Rightarrow> if mode \<in> set [''driving'', ''walking'', ''cycling''] then mode else ''driving''
      | _ \<Rightarrow> ''driving'')"


section \<open>Captures of a match\<close>

subsection \<open>Captures\<close>

text \<open>Every relation on states that the single steps of the matcher respect holds of its results.\<close>

lemma rxm_rel:
  assumes refl: "\<And>s. R s s"
    and trans: "\<And>s t u. R s t \<Longrightarrow> R t u \<Longrightarrow> R s u"
    and read: "\<And>l r cp l' r'. R (l, r, cp) (l', r', cp)"
    and capture: "\<And>s l' r' cp' n g. R s (l', r', cp') \<Longrightarrow> R s (l', r', cp'[n := Some g])"
    and look: "\<And>l r cp l' r' cp'. R (l, r, cp) (l', r', cp') \<Longrightarrow> R (l, r, cp) (l, r, cp')"
  shows "s' \<in> set (rxm ic a s) \<Longrightarrow> R s s'"
proof (induction ic a s arbitrary: s' rule: rxm.induct)
  case (1 ic s)
  then show ?case by (simp add: refl)
next
  case (2 ic w l r cp)
  then obtain l' r' where "s' = (l', r', cp)"
    by (cases "lit_match ic w l r") auto
  then show ?case by (simp add: read)
next
  case (3 ic items l r cp)
  then obtain l' r' where "s' = (l', r', cp)"
    by (auto split: list.splits if_splits)
  then show ?case by (simp add: read)
next
  case (4 ic l r cp)
  then obtain l' r' where "s' = (l', r', cp)"
    by (auto split: list.splits if_splits)
  then show ?case by (simp add: read)
next
  case (5 ic a b s)
  from "5.prems" obtain t where t: "t \<in> set (rxm ic a s)" "s' \<in> set (rxm ic b t)"
    by auto
  from "5.IH"(1)[OF t(1)] "5.IH"(2)[OF t] show ?case
    by (rule trans)
next
  case (6 ic a b s)
  then show ?case by (cases s') auto
next
  case (7 ic a s)
  from "7.prems" consider "s' = s"
    | t where "t \<in> set (rxm ic a s)" "length (fst (snd t)) < length (fst (snd s))"
        "s' \<in> set (rxm ic (Star a) t)"
    by (subst (asm) rxm.simps(7)) (auto split: if_splits)
  then show ?case
  proof cases
    case 1
    then show ?thesis by (simp add: refl)
  next
    case 2
    from "7.IH"(1)[OF 2(1)] "7.IH"(2)[OF 2] show ?thesis
      by (rule trans)
  qed
next
  case (8 ic a s)
  from "8.prems" consider "s' = s"
    | t where "t \<in> set (rxm ic a s)" "length (fst (snd t)) < length (fst (snd s))"
        "s' \<in> set (rxm ic (StarL a) t)"
    by (subst (asm) rxm.simps(8)) (auto split: if_splits)
  then show ?case
  proof cases
    case 1
    then show ?thesis by (simp add: refl)
  next
    case 2
    from "8.IH"(1)[OF 2(1)] "8.IH"(2)[OF 2] show ?thesis
      by (rule trans)
  qed
next
  case (9 ic a s)
  then show ?case by (cases s') (auto simp: refl)
next
  case (10 ic n a l r cp)
  from "10.prems" obtain l' r' cp' where t: "(l', r', cp') \<in> set (rxm ic a (l, r, cp))"
    and s': "s' = (l', r', cp'[n := Some (take (length r - length r') r)])"
    by auto
  from capture[OF "10.IH"[OF t]] show ?case
    by (simp add: s')
next
  case (11 ic l r cp)
  then show ?case by (auto simp: refl split: if_splits)
next
  case (12 ic l r cp)
  then show ?case by (auto simp: refl split: if_splits)
next
  case (13 ic l r cp)
  then show ?case by (auto simp: refl split: if_splits)
next
  case (14 ic a l r cp)
  from "14.prems" obtain l1 r1 cp1 rest where hd: "rxm ic a (l, r, cp) = (l1, r1, cp1) # rest"
    and s': "s' = (l, r, cp1)"
    by (cases "rxm ic a (l, r, cp)") auto
  from hd have "(l1, r1, cp1) \<in> set (rxm ic a (l, r, cp))" by simp
  from look[OF "14.IH"[OF this]] show ?case by (simp add: s')
next
  case (15 ic a l r cp)
  from "15.prems" have "s' = (l, r, cp)"
    by (simp split: if_splits)
  then show ?case by (simp add: refl)
qed

lemma rxm_caps_length:
  assumes "(l', r', cp') \<in> set (rxm ic a (l, r, cp))"
  shows "length cp' = length cp"
proof -
  have "length (snd (snd (l', r', cp'))) = length (snd (snd (l, r, cp)))"
    by (rule rxm_rel[where R = "\<lambda>s s'. length (snd (snd s')) = length (snd (snd s))", OF _ _ _ _ _ assms])
       simp_all
  then show ?thesis by simp
qed

lemma rxm_caps_kept:
  assumes "(l', r', cp') \<in> set (rxm ic a (l, r, cp))" "cp ! n \<noteq> None"
  shows "cp' ! n \<noteq> None"
proof -
  have upd: "\<And>(xs :: caps) k g. xs ! n \<noteq> None \<Longrightarrow> xs[k := Some g] ! n \<noteq> None"
  proof -
    fix xs :: caps and k g
    assume "xs ! n \<noteq> None"
    then show "xs[k := Some g] ! n \<noteq> None"
      by (cases "k = n"; cases "n < length xs") (simp_all add: list_update_beyond)
  qed
  have "snd (snd (l, r, cp)) ! n \<noteq> None \<longrightarrow> snd (snd (l', r', cp')) ! n \<noteq> None"
    by (rule rxm_rel[where R = "\<lambda>s s'. snd (snd s) ! n \<noteq> None \<longrightarrow> snd (snd s') ! n \<noteq> None",
          OF _ _ _ _ _ assms(1)])
       (simp_all add: upd)
  with assms(2) show ?thesis by simp
qed

fun always_sets :: "nat \<Rightarrow> rx \<Rightarrow> bool" where
  "always_sets n (Grp k a) = (k = n \<or> always_sets n a)"
| "always_sets n (Seq a b) = (always_sets n a \<or> always_sets n b)"
| "always_sets n (Alt a b) = (always_sets n a \<and> always_sets n b)"
| "always_sets n a = False"

lemma rxm_always_sets:
  "always_sets n a \<Longrightarrow> n < length cp \<Longrightarrow> (l', r', cp') \<in> set (rxm ic a (l, r, cp)) \<Longrightarrow> cp' ! n \<noteq> None"
proof (induction a arbitrary: l r cp l' r' cp')
  case (Seq a b)
  from Seq.prems(3) obtain l1 r1 cp1 where t: "(l1, r1, cp1) \<in> set (rxm ic a (l, r, cp))"
    "(l', r', cp') \<in> set (rxm ic b (l1, r1, cp1))"
    by auto
  from rxm_caps_length[OF t(1)] Seq.prems(2) have len: "n < length cp1" by simp
  show ?case
  proof (cases "always_sets n a")
    case True
    from Seq.IH(1)[OF True Seq.prems(2) t(1)] have "cp1 ! n \<noteq> None" .
    with rxm_caps_kept[OF t(2)] show ?thesis by simp
  next
    case False
    with Seq.prems(1) have "always_sets n b" by simp
    from Seq.IH(2)[OF this len t(2)] show ?thesis .
  qed
next
  case (Alt a b)
  then show ?case by auto
next
  case (Grp k a)
  from Grp.prems(3) obtain cp1 where t: "(l', r', cp1) \<in> set (rxm ic a (l, r, cp))"
    and cp': "cp' = cp1[k := Some (take (length r - length r') r)]"
    by auto
  from rxm_caps_length[OF t] Grp.prems(2) have len: "n < length cp1" by simp
  show ?case
  proof (cases "k = n")
    case True
    with len cp' show ?thesis by simp
  next
    case False
    with Grp.prems(1) have "always_sets n a" by simp
    from Grp.IH[OF this Grp.prems(2) t] have "cp1 ! n \<noteq> None" .
    with False cp' show ?thesis by simp
  qed
qed simp_all

lemma match_here_group:
  assumes "match_here re l r = Some m" "always_sets n (pat re)" "n \<le> ngroups re"
  shows "\<exists>g. groups m ! n = Some g \<and> n < length (groups m)"
proof -
  from match_here_mem[OF assms(1)] obtain l' where
    mem: "(l', after m, groups m) \<in> set (rxm (icase re) (pat re) (l, r, replicate (Suc (ngroups re)) None))"
    by blast
  from assms(3) have len: "n < length (replicate (Suc (ngroups re)) (None :: string option))"
    by simp
  from rxm_always_sets[OF assms(2) len mem] rxm_caps_length[OF mem] len show ?thesis
    by auto
qed

lemma search_group:
  assumes "search re l r = Some m" "always_sets n (pat re)" "n \<le> ngroups re"
  shows "\<exists>g. groups m ! n = Some g \<and> n < length (groups m)"
proof -
  from search_is_match_here[OF assms(1)] obtain u v where "match_here re (rev u @ l) v = Some m"
    by blast
  from match_here_group[OF this assms(2,3)] show ?thesis .
qed


section \<open>The extractors never throw\<close>

lemma match_here_groups_length:
  assumes "match_here re l r = Some m"
  shows "length (groups m) = Suc (ngroups re)"
proof -
  from match_here_mem[OF assms] obtain l' where
    "(l', after m, groups m) \<in> set (rxm (icase re) (pat re) (l, r, replicate (Suc (ngroups re)) None))"
    by blast
  from rxm_caps_length[OF this] show ?thesis by simp
qed

lemma js_match_group:
  assumes "js_match re s = Some m" "always_sets n (pat re)" "0 < n" "n \<le> ngroups re"
  shows "\<exists>g. mgroup m n = Some g"
proof -
  from assms(1) have "search re [] s = Some m" by (simp add: js_match_def)
  from search_group[OF this assms(2,4)] assms(3) show ?thesis
    by (auto simp: mgroup_def)
qed

lemma then_js_Inr [simp]: "then_js (Inr v) f = f v"
  by (simp add: then_js_def)

lemma then_js_Inl [simp]: "then_js (Inl e) f = Inl e"
  by (simp add: then_js_def)

lemma str_of_Some [simp]: "str_of (Some s) = Inr s"
  by (simp add: str_of_def)

lemma two_groups_total:
  assumes "js_match re s = Some m" "always_sets 1 (pat re)" "always_sets 2 (pat re)" "2 \<le> ngroups re"
  shows "\<exists>x y. two_groups m = Inr [x, y]"
proof -
  from js_match_group[OF assms(1,2)] assms(4) obtain a where "mgroup m 1 = Some a" by auto
  moreover from js_match_group[OF assms(1,3)] assms(4) obtain b where "mgroup m 2 = Some b" by auto
  ultimately show ?thesis by (simp add: two_groups_def)
qed

lemma later_locations_total: "\<exists>locs. later_locations parts = Inr locs \<and> length locs = length parts"
proof (induction parts)
  case Nil
  show ?case by simp
next
  case (Cons part parts)
  then obtain rest where rest: "later_locations parts = Inr rest" "length rest = length parts"
    by blast
  define loc where "loc = trim (js_replace punctuation_run (\<lambda>_. []) (trim part))"
  show ?case
  proof (cases "js_match before_conjunction loc")
    case None
    with rest show ?thesis by (simp add: Let_def loc_def)
  next
    case (Some conjMatch)
    have "always_sets 1 (pat before_conjunction)"
      by (simp add: before_conjunction_def)
    from js_match_group[OF Some this] obtain g where "mgroup conjMatch 1 = Some g"
      by (auto simp: before_conjunction_def)
    with Some rest show ?thesis by (simp add: Let_def loc_def)
  qed
qed

lemma manual_split_total: "manual_split txt = Some found \<Longrightarrow> \<exists>locs. found = Inr locs \<and> length locs \<ge> 2"
proof -
  assume a: "manual_split txt = Some found"
  then obtain first second others where parts: "js_split ws_to_ws txt = first # second # others"
    by (auto simp: manual_split_def split: if_splits list.splits)
  obtain rest where rest: "later_locations (second # others) = Inr rest"
    "length rest = length (second # others)"
    using later_locations_total by blast
  show ?thesis
  proof (cases "js_match from_rest first")
    case None
    with a parts rest show ?thesis
      by (auto simp: manual_split_def split: if_splits)
  next
    case (Some firstLoc)
    have "always_sets 1 (pat from_rest)"
      by (simp add: from_rest_def)
    from js_match_group[OF Some this] obtain g where "mgroup firstLoc 1 = Some g"
      by (auto simp: from_rest_def)
    with a parts rest Some show ?thesis
      by (auto simp: manual_split_def split: if_splits)
  qed
qed

lemma split_caps_loop_defined:
  "(\<forall>n. 0 < n \<and> n \<le> ngroups re \<longrightarrow> always_sets n (pat re)) \<Longrightarrow>
   None \<notin> set (split_caps_loop re lp seg r)"
proof (induction re lp seg r rule: split_caps_loop.induct)
  case (1 re lp seg)
  show ?case by simp
next
  case (2 re lp seg c cs)
  then have sets: "\<And>n. 0 < n \<Longrightarrow> n \<le> ngroups re \<Longrightarrow> always_sets n (pat re)"
    by blast
  show ?case
  proof (cases "match_here re (seg @ lp) (c # cs)")
    case None
    then show ?thesis using 2 by simp
  next
    case (Some m)
    have grp: "None \<notin> set (tl (groups m))"
    proof
      assume "None \<in> set (tl (groups m))"
      then obtain i where i: "i < length (tl (groups m))" "tl (groups m) ! i = None"
        by (metis in_set_conv_nth)
      then have "groups m ! Suc i = None" "Suc i < length (groups m)"
        by (simp_all add: nth_tl)
      moreover from match_here_groups_length[OF Some] calculation(2) have "Suc i \<le> ngroups re"
        by simp
      moreover have "always_sets (Suc i) (pat re)"
        using sets[of "Suc i"] \<open>Suc i \<le> ngroups re\<close> by simp
      ultimately show False
        using match_here_group[OF Some, of "Suc i"] by auto
    qed
    with Some 2 show ?thesis by auto
  qed
qed

section \<open>The paragraph extractor\<close>

fun first_seen_by_name :: "jsval list \<Rightarrow> jsval list" where
  \<comment> \<open>de-duplication by exact name, keeping the first entry of every name in its place\<close>
  "first_seen_by_name [] = []"
| "first_seen_by_name (loc # locs) =
     loc # first_seen_by_name (filter (\<lambda>other. name_of other \<noteq> name_of loc) locs)"

lemma remove_duplicates_first_seen:
  "remove_duplicates locs seenLocations uniqueLocations =
     uniqueLocations @
     first_seen_by_name (filter (\<lambda>loc. name_of loc \<notin> set seenLocations) locs)"
proof (induction locs arbitrary: seenLocations uniqueLocations)
  case Nil
  show ?case by simp
next
  case (Cons loc locs)
  have "filter (\<lambda>other. name_of other \<noteq> name_of loc)
          (filter (\<lambda>other. name_of other \<notin> set seenLocations) locs) =
        filter (\<lambda>other. name_of other \<notin> set (seenLocations @ [name_of loc])) locs"
    by (induction locs) auto
  with Cons show ?case by simp
qed

lemma first_seen_by_name_subset: "set (first_seen_by_name locs) \<subseteq> set locs"
proof (induction locs rule: first_seen_by_name.induct)
  case 1
  show ?case by simp
next
  case (2 loc locs)
  then show ?case by auto
qed

lemma first_seen_by_name_distinct: "distinct (map name_of (first_seen_by_name locs))"
proof (induction locs rule: first_seen_by_name.induct)
  case 1
  show ?case by simp
next
  case (2 loc locs)
  have "name_of loc \<notin> name_of ` set (first_seen_by_name (filter (\<lambda>other. name_of other \<noteq> name_of loc) locs))"
    using first_seen_by_name_subset[of "filter (\<lambda>other. name_of other \<noteq> name_of loc) locs"]
    by auto
  with 2 show ?case by simp
qed

lemma first_seen_by_name_names:
  "name_of ` set (first_seen_by_name locs) = name_of ` set locs"
proof (induction locs rule: first_seen_by_name.induct)
  case 1
  show ?case by simp
next
  case (2 loc locs)
  then show ?case by auto
qed

lemma get_prop_extraction_result:
  "get_prop (extraction_result r locs mode msg sequence) ''isRouteRequest'' = JBool r"
  "get_prop (extraction_result r locs mode msg sequence) ''locations'' = JArr locs"
  "get_prop (extraction_result r locs mode msg sequence) ''travelMode'' = JStr mode"
  "get_prop (extraction_result r locs mode msg sequence) ''preferences'' = JArr []"
  "get_prop (extraction_result r locs mode msg sequence) ''message'' = JStr msg"
  "get_prop (extraction_result r locs mode msg sequence) ''suggestedSequence'' = JArr sequence"
  by (simp_all add: extraction_result_def)

text \<open>
  C10. For every text, the result of \<^verbatim>\<open>extractLocationsFromParagraph\<close> has \<^verbatim>\<open>isRouteRequest\<close>
  false; its \<^verbatim>\<open>locations\<close> are the locations found in the sentences, de-duplicated by exact
  name with the first entry of every name kept in its place, so that no name occurs twice and
  no name is lost; and its \<^verbatim>\<open>suggestedSequence\<close> lists the names of these locations in the
  same order.
\<close>

theorem C10_paragraph_extractor:
  "\<exists>found locs.
     get_prop (extractLocationsFromParagraph txt) ''isRouteRequest'' = JBool False \<and>
     get_prop (extractLocationsFromParagraph txt) ''locations'' = JArr locs \<and>
     get_prop (extractLocationsFromParagraph txt) ''suggestedSequence'' = JArr (map name_of locs) \<and>
     found = scan_sentences (filter (\<lambda>s. length (trim s) > 0) (js_split sentence_end txt)) [] \<and>
     locs = first_seen_by_name found \<and>
     distinct (map name_of locs) \<and>
     name_of ` set locs = name_of ` set found"
  by (simp add: extractLocationsFromParagraph_def Let_def get_prop_extraction_result
      remove_duplicates_first_seen first_seen_by_name_distinct first_seen_by_name_names)

declare find_all.simps [simp del] replace_from.simps [simp del]

subsection \<open>\<^verbatim>\<open>extractLocationsBasic\<close> and the fallbacks\<close>

lemma scan_route_tokens_total:
  "None \<notin> set tokens \<Longrightarrow> \<exists>locs. scan_route_tokens tokens locations = Inr locs"
proof (induction tokens locations rule: scan_route_tokens.induct)
  case (1 locations)
  show ?case by simp
next
  case (2 token locations)
  show ?case by simp
next
  case (3 token nxt tokens locations)
  from "3.prems" obtain next_text where nt: "nxt = Some next_text"
    by (cases nxt) auto
  from "3.prems" have rest: "None \<notin> set (nxt # tokens)" by simp
  show ?case
  proof (cases "token \<in> set [Some ''from'', Some ''to'', Some ''towards'', Some ''toward'']")
    case True
    from "3.IH"(1)[OF True refl rest] True nt show ?thesis
      by (simp add: Let_def)
  next
    case False
    from "3.IH"(2)[OF False rest] False show ?thesis by simp
  qed
qed

lemma js_split_caps_connective_word: "None \<notin> set (js_split_caps connective_word s)"
proof -
  have "\<forall>n. 0 < n \<and> n \<le> ngroups connective_word \<longrightarrow> always_sets n (pat connective_word)"
    by (simp add: connective_word_def)
  from split_caps_loop_defined[OF this] show ?thesis
    by (simp add: js_split_caps_def)
qed

lemma general_locations_total: "\<exists>locs. general_locations txt = Inr locs"
  using scan_route_tokens_total[OF js_split_caps_connective_word]
  by (simp add: general_locations_def Let_def)

lemma extractLocationsBasic_total: "\<exists>locs. extractLocationsBasic txt = Inr locs"
proof (cases "manual_split txt")
  case None
  with general_locations_total show ?thesis
    by (auto simp: extractLocationsBasic_def Let_def split: option.splits)
next
  case (Some found)
  from manual_split_total[OF Some] Some show ?thesis
    by (auto simp: extractLocationsBasic_def Let_def split: option.splits)
qed

subsection \<open>The pieces of a split are parts of the text\<close>

lemma str_includes_iff: "str_includes s p \<longleftrightarrow> (\<exists>a b. s = a @ p @ b)"
proof (induction s)
  case Nil
  show ?case by auto
next
  case (Cons c cs)
  show ?case
  proof
    assume "str_includes (c # cs) p"
    then consider "startsWith (c # cs) p" | "str_includes cs p" by auto
    then show "\<exists>a b. c # cs = a @ p @ b"
    proof cases
      case 1
      then obtain t where "c # cs = p @ t" by (auto simp: startsWith_iff)
      then have "c # cs = [] @ p @ t" by simp
      then show ?thesis by blast
    next
      case 2
      with Cons obtain a b where "cs = a @ p @ b" by blast
      then have "c # cs = (c # a) @ p @ b" by simp
      then show ?thesis by blast
    qed
  next
    assume "\<exists>a b. c # cs = a @ p @ b"
    then obtain a b where ab: "c # cs = a @ p @ b" by blast
    show "str_includes (c # cs) p"
    proof (cases a)
      case Nil
      with ab have "startsWith (c # cs) p" by (auto simp: startsWith_iff)
      then show ?thesis by simp
    next
      case (Cons d a')
      with ab have "cs = a' @ p @ b" by simp
      with Cons.IH have "str_includes cs p" by blast
      then show ?thesis by simp
    qed
  qed
qed

lemma split_loop_pieces:
  "x \<in> set (split_loop re lp seg r) \<Longrightarrow> \<exists>a b. rev seg @ r = a @ x @ b"
proof (induction re lp seg r rule: split_loop.induct)
  case (1 re lp seg)
  then have "rev seg @ [] = [] @ x @ []" by simp
  then show ?case by blast
next
  case (2 re lp seg c cs)
  have whole: "\<exists>a b. rev seg @ c # cs = a @ rev seg @ b"
  proof -
    have "rev seg @ c # cs = [] @ rev seg @ c # cs" by simp
    then show ?thesis by blast
  qed
  show ?case
  proof (cases "match_here re (seg @ lp) (c # cs)")
    case None
    with 2 have "\<exists>a b. rev (c # seg) @ cs = a @ x @ b" by simp
    then show ?thesis by simp
  next
    case (Some m)
    from match_here_shape[OF Some] have shape: "c # cs = matched m @ after m" by simp
    consider (skip) "matched m = []" "seg = []" "x \<in> set (split_loop re lp (c # seg) cs)"
      | (piece) "x = rev seg"
      | (empty) "matched m = []" "seg \<noteq> []" "x \<in> set (split_loop re (seg @ lp) [] (c # cs))"
      | (rest) "matched m \<noteq> []" "x \<in> set (split_loop re (rev (matched m) @ seg @ lp) [] (after m))"
      using "2.prems" Some by (auto split: if_splits)
    then show ?thesis
    proof cases
      case skip
      with "2.IH"(2)[OF Some] have "\<exists>a b. rev (c # seg) @ cs = a @ x @ b" by simp
      then show ?thesis by simp
    next
      case piece
      with whole show ?thesis by simp
    next
      case empty
      with "2.IH"(3)[OF Some] obtain a b where "c # cs = a @ x @ b" by auto
      then have "rev seg @ c # cs = (rev seg @ a) @ x @ b" by simp
      then show ?thesis by blast
    next
      case rest
      with "2.IH"(4)[OF Some] obtain a b where "after m = a @ x @ b" by auto
      with shape have "rev seg @ c # cs = (rev seg @ matched m @ a) @ x @ b" by simp
      then show ?thesis by blast
    qed
  qed
qed

lemma js_split_pieces: "x \<in> set (js_split re s) \<Longrightarrow> \<exists>a b. s = a @ x @ b"
proof (cases "s = []")
  case True
  assume "x \<in> set (js_split re s)"
  with True have "x = []" by (auto simp: js_split_def split: if_splits)
  with True show ?thesis by simp
next
  case False
  assume "x \<in> set (js_split re s)"
  with False split_loop_pieces[of x re "[]" "[]" s] show ?thesis
    by (simp add: js_split_def)
qed

lemma nth_opt_in_set: "nth_opt xs i = Some x \<Longrightarrow> x \<in> set xs"
  by (auto simp: nth_opt_def split: if_splits)

lemma includes_lower_piece:
  assumes "s = a @ x @ b" "str_includes (toLowerCase x) p"
  shows "str_includes (toLowerCase s) p"
proof -
  from assms(2) obtain u v where "toLowerCase x = u @ p @ v"
    by (auto simp: str_includes_iff)
  with assms(1) have "toLowerCase s = (toLowerCase a @ u) @ p @ (v @ toLowerCase b)"
    by (simp add: toLowerCase_def)
  then show ?thesis unfolding str_includes_iff by blast
qed

lemma split_loop_not_Nil: "split_loop re lp seg r \<noteq> []"
  by (induction re lp seg r rule: split_loop.induct) (auto split: option.splits)

subsection \<open>The pattern shortcuts\<close>

lemma waypoints_after_route_total:
  assumes "\<not> str_includes (toLowerCase inputText) ''from''"
  shows "waypoints_after_route inputText \<noteq> Some (Inl e)"
proof
  assume thrown: "waypoints_after_route inputText = Some (Inl e)"
  then obtain afterRoute where
    piece: "nth_opt (js_split (whole_word ''route'') inputText) 1 = Some afterRoute"
    and incl: "str_includes (toLowerCase afterRoute) ''from''"
    by (auto simp: waypoints_after_route_def split: option.splits if_splits)
  from js_split_pieces[OF nth_opt_in_set[OF piece]] obtain a b where
    "inputText = a @ afterRoute @ b" by blast
  from includes_lower_piece[OF this incl] assms show False by simp
qed

lemma travelMode_of_valid: "travelMode_of inputText \<in> set [''walking'', ''cycling'', ''driving'']"
  by (simp add: travelMode_of_def)

lemma multi_waypoint_shortcut_route:
  assumes "multi_waypoint_shortcut inputText = Some r"
  shows "\<exists>waypoints. length waypoints \<ge> 2 \<and> r = Inr (multi_stop_route inputText waypoints)"
proof (cases "str_includes (toLowerCase inputText) ''from''")
  case True
  with assms show ?thesis
    by (auto simp: multi_waypoint_shortcut_def Let_def split: if_splits option.splits)
next
  case False
  from waypoints_after_route_total[OF False] have
    "\<And>e. waypoints_after_route inputText \<noteq> Some (Inl e)" .
  with assms False show ?thesis
    by (auto simp: multi_waypoint_shortcut_def Let_def split: if_splits option.splits sum.splits)
qed

definition built_route :: "jsval \<Rightarrow> bool" where
  \<comment> \<open>a route the shortcuts build: two waypoints or more, one of three modes, a message\<close>
  "built_route v =
     (\<exists>travelMode msg waypoints.
        v = route_of_waypoints travelMode msg waypoints \<and>
        travelMode \<in> set [''walking'', ''cycling'', ''driving''] \<and> msg \<noteq> [] \<and>
        length waypoints \<ge> 2)"

lemma built_routeI:
  "v = route_of_waypoints travelMode msg waypoints \<Longrightarrow>
   travelMode \<in> set [''walking'', ''cycling'', ''driving''] \<Longrightarrow> msg \<noteq> [] \<Longrightarrow>
   length waypoints \<ge> 2 \<Longrightarrow> built_route v"
  unfolding built_route_def by blast

lemma built_route_multi_stop:
  "length waypoints \<ge> 2 \<Longrightarrow> built_route (multi_stop_route inputText waypoints)"
  unfolding multi_stop_route_def Let_def
  by (rule built_routeI[OF refl travelMode_of_valid]) simp_all

lemma built_route_two_stop:
  "travelMode \<in> set [''walking'', ''cycling'', ''driving''] \<Longrightarrow>
   built_route (two_stop_route travelMode a b)"
  unfolding two_stop_route_def
  by (rule built_routeI[OF refl]) simp_all

lemma pattern_shortcuts_shape:
  assumes "pattern_shortcuts inputText = Some r"
  shows "\<exists>v. r = Inr v \<and> (v = gibbon_result \<or> built_route v)"
proof (cases "multi_waypoint_shortcut inputText")
  case (Some r')
  with assms have "r' = r" by (simp add: pattern_shortcuts_def)
  with multi_waypoint_shortcut_route[OF Some] built_route_multi_stop show ?thesis by blast
next
  case None
  note multi = this
  show ?thesis
  proof (cases "simple_route_shortcut inputText")
    case (Some v)
    with assms multi have r: "r = Inr v" by (simp add: pattern_shortcuts_def)
    from Some obtain a b where "v = two_stop_route (travelMode_of inputText) a b"
      by (auto simp: simple_route_shortcut_def Let_def split: option.splits)
    with r built_route_two_stop[OF travelMode_of_valid] show ?thesis by simp
  next
    case None
    note simple = this
    show ?thesis
    proof (cases "walking_route_shortcut inputText")
      case (Some v)
      with assms multi simple have r: "r = Inr v" by (simp add: pattern_shortcuts_def)
      from Some obtain a b where "v = two_stop_route ''walking'' a b"
        by (auto simp: walking_route_shortcut_def Let_def split: option.splits)
      with r built_route_two_stop[of "''walking''" a b] show ?thesis by simp
    next
      case None
      with assms multi simple have "r = Inr gibbon_result"
        by (auto simp: pattern_shortcuts_def gibbon_shortcut_def split: option.splits if_splits)
      then show ?thesis by simp
    qed
  qed
qed

subsection \<open>What a literal matches without regard to case\<close>

lemma lower_char_upper_ascii: "lower_char (upper_ascii c) = lower_char c"
proof (cases c)
  case (Char b0 b1 b2 b3 b4 b5 b6 b7)
  show ?thesis
    unfolding Char by (auto simp: upper_ascii_code lower_char_code)
qed

lemma char_eq_lower: "char_eq ic p c \<Longrightarrow> lower_char p = lower_char c"
  by (metis char_eq_def lower_char_upper_ascii)

lemma lit_match_lower:
  "lit_match ic w l r = Some (l', r') \<Longrightarrow>
   map lower_char (take (length r - length r') r) = map lower_char w"
proof (induction ic w l r rule: lit_match.induct)
  case (1 ic l r)
  then show ?case by simp
next
  case (2 ic p ps l)
  then show ?case by simp
next
  case (3 ic p ps l c cs)
  from "3.prems" have eq: "char_eq ic p c" and rest: "lit_match ic ps (c # l) cs = Some (l', r')"
    by (auto split: if_splits)
  from lit_match_shape[OF rest] have "length r' \<le> length cs" by auto
  then have "take (length (c # cs) - length r') (c # cs) = c # take (length cs - length r') cs"
    by (simp add: Suc_diff_le)
  with "3.IH"[OF eq rest] char_eq_lower[OF eq] show ?case by simp
qed

lemma rxm_word_alts:
  "(l', r', cp') \<in> set (rxm ic (word_alts alternatives) (l, r, cp)) \<Longrightarrow>
   cp' = cp \<and> (\<exists>w \<in> set alternatives.
                  map lower_char (take (length r - length r') r) = map lower_char w)"
proof (induction alternatives rule: induct_list012)
  case 1
  then show ?case by (simp add: word_alts_def cls_has_def split: list.splits)
next
  case (2 w)
  then obtain l1 r1 where "lit_match ic w l r = Some (l1, r1)" "(l', r', cp') = (l1, r1, cp)"
    by (cases "lit_match ic w l r") (auto simp: word_alts_def)
  with lit_match_lower[of ic w l r l' r'] show ?case by simp
next
  case (3 w w' alternatives)
  from "3.prems" consider "(l', r', cp') \<in> set (rxm ic (Lit w) (l, r, cp))"
    | "(l', r', cp') \<in> set (rxm ic (word_alts (w' # alternatives)) (l, r, cp))"
    by (auto simp: word_alts_def)
  then show ?case
  proof cases
    case 1
    then obtain l1 r1 where "lit_match ic w l r = Some (l1, r1)" "(l', r', cp') = (l1, r1, cp)"
      by (cases "lit_match ic w l r") auto
    with lit_match_lower[of ic w l r l' r'] show ?thesis by simp
  next
    case 2
    with "3.IH"(2) show ?thesis by simp
  qed
qed

lemma rxm_Seq_mem: "s' \<in> set (rxm ic (Seq a b) s) \<longleftrightarrow> (\<exists>t \<in> set (rxm ic a s). s' \<in> set (rxm ic b t))"
  by simp

lemma rxm_Wb_mem: "s' \<in> set (rxm ic Wb (l, r, cp)) \<longleftrightarrow> s' = (l, r, cp) \<and> at_wb l r"
  by auto

lemma rxm_Grp_mem:
  "(l', r', cp') \<in> set (rxm ic (Grp n a) (l, r, cp)) \<longleftrightarrow>
   (\<exists>cp1. (l', r', cp1) \<in> set (rxm ic a (l, r, cp)) \<and>
          cp' = cp1[n := Some (take (length r - length r') r)])"
proof
  assume "(l', r', cp') \<in> set (rxm ic (Grp n a) (l, r, cp))"
  then show "\<exists>cp1. (l', r', cp1) \<in> set (rxm ic a (l, r, cp)) \<and>
          cp' = cp1[n := Some (take (length r - length r') r)]"
    by auto
next
  assume "\<exists>cp1. (l', r', cp1) \<in> set (rxm ic a (l, r, cp)) \<and>
          cp' = cp1[n := Some (take (length r - length r') r)]"
  then obtain cp1 where "(l', r', cp1) \<in> set (rxm ic a (l, r, cp))"
    "cp' = cp1[n := Some (take (length r - length r') r)]" by blast
  then show "(l', r', cp') \<in> set (rxm ic (Grp n a) (l, r, cp))"
    by (simp add: rev_image_eqI)
qed

lemma mode_word_group:
  assumes "js_match mode_word s = Some m"
  shows "\<exists>g. mgroup m 1 = Some g \<and>
             toLowerCase g \<in> set [''walking'', ''cycling'', ''driving'', ''transit'']"
proof -
  from assms have "search mode_word [] s = Some m" by (simp add: js_match_def)
  from search_is_match_here[OF this] obtain u v where
    here: "match_here mode_word (rev u @ []) v = Some m" by blast
  from match_here_mem[OF here] obtain l' where
    "(l', after m, groups m) \<in>
       set (rxm True (Seq Wb (Seq (Grp 1 (word_alts [''walking'', ''cycling'', ''driving'', ''transit''])) Wb))
              (rev u, v, [None, None]))"
    unfolding mode_word_def by (auto simp del: rxm.simps simp add: numeral_2_eq_2)
  then obtain t t2 where
    t: "t \<in> set (rxm True Wb (rev u, v, [None, None]))"
    and t2: "t2 \<in> set (rxm True (Grp 1 (word_alts [''walking'', ''cycling'', ''driving'', ''transit''])) t)"
    and last: "(l', after m, groups m) \<in> set (rxm True Wb t2)"
    unfolding rxm_Seq_mem by blast
  from t have "t = (rev u, v, [None, None])"
    by (simp only: rxm_Wb_mem)
  moreover from last have "t2 = (l', after m, groups m)"
    by (cases t2) (simp only: rxm_Wb_mem)
  ultimately have "(l', after m, groups m) \<in>
       set (rxm True (Grp 1 (word_alts [''walking'', ''cycling'', ''driving'', ''transit'']))
              (rev u, v, [None, None]))"
    using t2 by simp
  then obtain cp1 where
    inner: "(l', after m, cp1) \<in>
       set (rxm True (word_alts [''walking'', ''cycling'', ''driving'', ''transit'']) (rev u, v, [None, None]))"
    and caps: "groups m = cp1[1 := Some (take (length v - length (after m)) v)]"
    unfolding rxm_Grp_mem by blast
  from rxm_word_alts[OF inner] have cp1: "cp1 = [None, None]"
    and word: "\<exists>w \<in> set [''walking'', ''cycling'', ''driving'', ''transit''].
                 map lower_char (take (length v - length (after m)) v) = map lower_char w"
    by auto
  from caps cp1 have "mgroup m 1 = Some (take (length v - length (after m)) v)"
    by (simp add: mgroup_def)
  moreover from word
  have "toLowerCase (take (length v - length (after m)) v) \<in> set [''walking'', ''cycling'', ''driving'', ''transit'']"
    by (auto simp: toLowerCase_def lower_char_code)
  ultimately show ?thesis by blast
qed

lemma mode_in_text_valid: "mode_in_text inputText \<in> set validModes"
proof (cases "js_match mode_word inputText")
  case None
  then show ?thesis by (simp add: mode_in_text_def validModes_def)
next
  case (Some m)
  from mode_word_group[OF Some] Some show ?thesis
    by (auto simp: mode_in_text_def validModes_def)
qed

subsection \<open>The results that \<^verbatim>\<open>processNaturalLanguageInput\<close> builds itself\<close>

definition own_result :: "jsval \<Rightarrow> bool" where
  \<comment> \<open>a result with the names of its locations as the sequence, one of the four modes and a
      message\<close>
  "own_result v =
     (\<exists>isRouteRequest locs travelMode msg.
        v = extraction_result isRouteRequest locs travelMode msg (map name_of locs) \<and>
        travelMode \<in> set validModes \<and> msg \<noteq> [])"

lemma own_resultI:
  "v = extraction_result isRouteRequest locs travelMode msg sequence \<Longrightarrow>
   sequence = map name_of locs \<Longrightarrow>
   travelMode \<in> set validModes \<Longrightarrow> msg \<noteq> [] \<Longrightarrow> own_result v"
  unfolding own_result_def by blast

lemma name_of_location [simp]: "name_of (location name timeContext) = name"
  by (simp add: name_of_def location_def)

lemma names_of_waypoints:
  "map name_of (map (\<lambda>wp. location (JStr wp) (JStr [])) waypoints) = map JStr waypoints"
  by (simp add: comp_def)

lemma own_result_route:
  "travelMode \<in> set validModes \<Longrightarrow> msg \<noteq> [] \<Longrightarrow>
   own_result (route_of_waypoints travelMode msg waypoints)"
  unfolding route_of_waypoints_def
  by (rule own_resultI[OF refl]) (simp_all add: names_of_waypoints)

lemma own_result_built_route: "built_route v \<Longrightarrow> own_result v"
  unfolding built_route_def by (auto simp: validModes_def intro!: own_result_route)

lemma own_result_gibbon: "own_result gibbon_result"
  unfolding gibbon_result_def
  by (rule own_resultI[OF refl]) (simp_all add: validModes_def)

lemma own_result_paragraph: "own_result (extractLocationsFromParagraph inputText)"
  unfolding extractLocationsFromParagraph_def Let_def
  by (rule own_resultI[OF refl]) (simp_all add: validModes_def)

lemma own_result_fallback_multi_waypoint:
  "fallback_multi_waypoint inputText = Some v \<Longrightarrow> own_result v"
  by (auto simp: fallback_multi_waypoint_def Let_def mode_in_text_valid
      split: option.splits if_splits intro!: own_result_route)

lemma basic_fallback_own_result:
  "\<exists>v. basic_fallback isLikelyRouteRequest inputText = Inr v \<and> own_result v"
proof -
  from extractLocationsBasic_total obtain locs where locs: "extractLocationsBasic inputText = Inr locs"
    by blast
  have "own_result
          (extraction_result isLikelyRouteRequest
             (map (\<lambda>loc. location (JStr loc) (JStr [])) locs) (mode_in_text inputText)
             (if isLikelyRouteRequest
              then ''I had trouble understanding the details, but I'' @ [CHR 0x27] @
                   ''ll try to map what I understood.''
              else ''I found some potential locations in your text. '' @
                   ''Would you like to see them on the map?'')
             (map JStr locs))"
    by (rule own_resultI[OF refl]) (simp_all add: names_of_waypoints mode_in_text_valid)
  with locs show ?thesis by (simp add: basic_fallback_def)
qed

lemma after_failure_own_result: "\<exists>v. after_failure inputText = Inr v \<and> own_result v"
  using basic_fallback_own_result[of "js_test routingKeywords inputText" inputText]
  by (auto simp: after_failure_def Let_def own_result_gibbon own_result_paragraph
      own_result_fallback_multi_waypoint split: option.splits)

lemma pattern_shortcuts_own_result:
  "pattern_shortcuts inputText = Some r \<Longrightarrow> \<exists>v. r = Inr v \<and> own_result v"
  using pattern_shortcuts_shape[of inputText r]
  by (auto simp: own_result_gibbon own_result_built_route)

lemma processNaturalLanguageInput_total:
  "\<exists>v. processNaturalLanguageInput parse outcome inputText = Inr v"
proof (cases "pattern_shortcuts inputText")
  case (Some r)
  with pattern_shortcuts_own_result[OF Some] show ?thesis
    by (auto simp: processNaturalLanguageInput_def)
next
  case None
  with after_failure_own_result[of inputText] show ?thesis
    by (auto simp: processNaturalLanguageInput_def split: sum.splits)
qed

lemma processNaturalLanguageInput_own_result:
  assumes "pattern_shortcuts inputText \<noteq> None \<or> (\<exists>e. language_model_stage parse outcome = Inl e)"
  shows "\<exists>v. processNaturalLanguageInput parse outcome inputText = Inr v \<and> own_result v"
proof (cases "pattern_shortcuts inputText")
  case (Some r)
  with pattern_shortcuts_own_result[OF Some] show ?thesis
    by (auto simp: processNaturalLanguageInput_def)
next
  case None
  with assms obtain e where "language_model_stage parse outcome = Inl e" by auto
  with None after_failure_own_result[of inputText] show ?thesis
    by (auto simp: processNaturalLanguageInput_def)
qed

lemma own_result_props:
  assumes "own_result v"
  shows "\<exists>locs mode msg.
           get_prop v ''locations'' = JArr locs \<and>
           get_prop v ''suggestedSequence'' = JArr (map name_of locs) \<and>
           get_prop v ''travelMode'' = JStr mode \<and> mode \<in> set validModes \<and>
           get_prop v ''message'' = JStr msg \<and> msg \<noteq> []"
  using assms unfolding own_result_def
  by (auto simp: get_prop_extraction_result)

subsection \<open>nlp-secure.js\<close>

lemma transport_of_phrase_total: "\<exists>mode. transport_of_phrase query = Inr mode \<and> mode \<in> set validModes"
proof (cases "js_match transport_phrase query")
  case None
  then show ?thesis by (simp add: transport_of_phrase_def validModes_def)
next
  case (Some transportModeMatch)
  have "always_sets 1 (pat transport_phrase)"
    by (simp add: transport_phrase_def)
  from js_match_group[OF Some this] obtain g where "mgroup transportModeMatch 1 = Some g"
    by (auto simp: transport_phrase_def)
  with Some show ?thesis
    by (simp add: transport_of_phrase_def validModes_def Let_def)
qed

definition secure_preferences :: "string \<Rightarrow> string \<Rightarrow> jsval" where
  \<comment> \<open>the \<^verbatim>\<open>preferences\<close> of the module's \<^verbatim>\<open>extractLocationsWithRegex\<close>, for the mode found\<close>
  "secure_preferences mode query =
     preferences_obj mode
       (js_test (avoiding [''toll'', ''tolls'']) query)
       (js_test (avoiding [''highway'', ''highways'', ''freeway'', ''freeways'']) query)
       (js_test (avoiding [''ferry'', ''ferries'']) query)"

lemma secure_extractLocationsWithRegex_total:
  "\<exists>locations mode.
     secure_extractLocationsWithRegex query = Inr (nlp_result locations (secure_preferences mode query)) \<and>
     mode \<in> set validModes"
proof -
  from transport_of_phrase_total obtain mode where
    mode: "transport_of_phrase query = Inr mode" "mode \<in> set validModes" by blast
  then have "\<exists>locations.
     secure_extractLocationsWithRegex query = Inr (nlp_result locations (secure_preferences mode query))"
    by (auto simp: secure_extractLocationsWithRegex_def secure_preferences_def Let_def
        split: option.splits intro!: exI)
  with mode(2) show ?thesis by blast
qed

lemma get_prop_set_prop: "get_prop (set_prop (JObj kvs) k v) k = v"
proof (cases "k \<in> set (map fst kvs)")
  case True
  then have "map_of (map (\<lambda>(k', v'). if k' = k then (k', v) else (k', v')) kvs) k = Some v"
    by (induction kvs) auto
  with True show ?thesis by simp
next
  case False
  then have "map_of kvs k = None" by (simp add: map_of_eq_None_iff)
  with False show ?thesis by (simp add: map_add_def)
qed

lemma validateAndFormatResponse_mode:
  assumes "validateAndFormatResponse response = Inr r"
  shows "\<exists>mode. get_prop (get_prop r ''preferences'') ''transportMode'' = JStr mode \<and>
                mode \<in> set validModes"
proof -
  define given where
    "given = (if truthy (get_prop response ''preferences'')
              then own_entries (get_prop response ''preferences'') @ defaultPreferences
              else defaultPreferences)"
  define preferences where
    "preferences = (if get_prop (JObj given) ''transportMode'' \<notin> set (map JStr validModes)
                    then set_prop (JObj given) ''transportMode'' (JStr ''driving'')
                    else JObj given)"
  from assms have r: "get_prop r ''preferences'' = preferences"
    by (auto simp: validateAndFormatResponse_def Let_def js_member_def preferences_def given_def
        split: if_splits)
  have "get_prop preferences ''transportMode'' \<in> set (map JStr validModes)"
  proof (cases "get_prop (JObj given) ''transportMode'' \<in> set (map JStr validModes)")
    case True
    then show ?thesis by (simp add: preferences_def)
  next
    case False
    then have "preferences = set_prop (JObj given) ''transportMode'' (JStr ''driving'')"
      by (simp add: preferences_def)
    then have "get_prop preferences ''transportMode'' = JStr ''driving''"
      by (simp only: get_prop_set_prop)
    then show ?thesis by (simp add: validModes_def)
  qed
  with r show ?thesis by auto
qed

lemma secure_processNaturalLanguage_total:
  "\<exists>r. secure_processNaturalLanguage functionCall prompted query = Inr r"
proof -
  from secure_extractLocationsWithRegex_total obtain v where
    "secure_extractLocationsWithRegex query = Inr v" by blast
  then show ?thesis
    by (auto simp: secure_processNaturalLanguage_def Let_def has_fallback_def
        split: sum.splits if_splits)
qed

subsection \<open>nlp.js\<close>

lemma try_separators_total:
  "try_separators seps normalizedText = Some found \<Longrightarrow>
   \<exists>locations. found = Inr locations \<and> length locations \<ge> 2"
proof (induction seps normalizedText rule: try_separators.induct)
  case (1 normalizedText)
  then show ?case by simp
next
  case (2 separator rest normalizedText)
  show ?case
  proof (cases "js_test separator normalizedText \<and> separator = sep_word ''between'' \<and>
                js_match betweenPattern normalizedText \<noteq> None")
    case True
    then obtain betweenMatch where m: "js_match betweenPattern normalizedText = Some betweenMatch"
      by auto
    have "\<exists>x y. two_groups betweenMatch = Inr [x, y]"
      by (rule two_groups_total[OF m]) (simp_all add: betweenPattern_def)
    with True m "2.prems" show ?thesis by auto
  next
    case False
    with 2 show ?thesis
      by (auto simp: Let_def split: if_splits option.splits)
  qed
qed

lemma nlp_extractLocationsWithRegex_empty: "nlp_extractLocationsWithRegex [] = Inr (JArr [])"
  by (simp add: nlp_extractLocationsWithRegex_def)

definition nlp_preferences :: "string \<Rightarrow> jsval" where
  \<comment> \<open>the \<^verbatim>\<open>preferences\<close> of the results of nlp.js, read off the normalized text\<close>
  "nlp_preferences normalizedText =
     preferences_obj
       (if js_test walk_words normalizedText then ''walking''
        else if js_test cycle_words normalizedText then ''cycling'' else ''driving'')
       (js_test toll_words normalizedText) (js_test highway_words normalizedText)
       (js_test ferry_words normalizedText)"

definition nlp_cleanedText :: "string \<Rightarrow> string" where
  "nlp_cleanedText normalizedText =
     trim (js_replace trailing_command (\<lambda>_. [])
            (js_replace leading_from_to_in_at (\<lambda>_. [])
              (js_replace leading_command (\<lambda>_. []) normalizedText)))"

lemma nlp_extractLocationsWithRegex_total:
  assumes "txt \<noteq> []"
  shows "\<exists>locations.
           nlp_extractLocationsWithRegex txt =
             Inr (nlp_result locations
                    (nlp_preferences (js_replace_g ws_run (\<lambda>_. '' '') (trim txt)))) \<and>
           (length locations \<ge> 2 \<or>
            locations = [nlp_cleanedText (js_replace_g ws_run (\<lambda>_. '' '') (trim txt))] \<or>
            locations = [trim txt])"
proof -
  define normalizedText where "normalizedText = js_replace_g ws_run (\<lambda>_. '' '') (trim txt)"
  show ?thesis
  proof (cases "js_match routePattern normalizedText")
    case (Some routeMatch)
    have "\<exists>x y. two_groups routeMatch = Inr [x, y]"
      by (rule two_groups_total[OF Some]) (simp_all add: routePattern_def)
    then obtain x y where "two_groups routeMatch = Inr [x, y]" by blast
    with Some assms have "nlp_extractLocationsWithRegex txt =
        Inr (nlp_result [x, y] (nlp_preferences normalizedText))"
      by (simp add: nlp_extractLocationsWithRegex_def nlp_preferences_def Let_def normalizedText_def)
    then show ?thesis unfolding normalizedText_def by (intro exI[of _ "[x, y]"]) simp
  next
    case None
    note no_route = this
    show ?thesis
    proof (cases "try_separators separators normalizedText")
      case (Some found)
      from try_separators_total[OF Some] obtain locations where
        locs: "found = Inr locations" "length locations \<ge> 2" by blast
      with Some no_route assms have "nlp_extractLocationsWithRegex txt =
          Inr (nlp_result locations (nlp_preferences normalizedText))"
        by (simp add: nlp_extractLocationsWithRegex_def nlp_preferences_def Let_def normalizedText_def)
      with locs(2) show ?thesis unfolding normalizedText_def by (intro exI[of _ locations]) simp
    next
      case None
      show ?thesis
      proof (cases "nlp_cleanedText normalizedText \<noteq> [] \<and> nlp_cleanedText normalizedText \<noteq> normalizedText")
        case True
        with None no_route assms have "nlp_extractLocationsWithRegex txt =
            Inr (nlp_result [nlp_cleanedText normalizedText] (nlp_preferences normalizedText))"
          by (simp add: nlp_extractLocationsWithRegex_def nlp_preferences_def nlp_cleanedText_def
              Let_def normalizedText_def)
        then show ?thesis unfolding normalizedText_def
          by (intro exI[of _ "[nlp_cleanedText (js_replace_g ws_run (\<lambda>_. '' '') (trim txt))]"]) simp
      next
        case False
        with None no_route assms have "nlp_extractLocationsWithRegex txt =
            Inr (nlp_result [trim txt] (nlp_preferences normalizedText))"
          by (auto simp: nlp_extractLocationsWithRegex_def nlp_preferences_def nlp_cleanedText_def
              Let_def normalizedText_def)
        then show ?thesis unfolding normalizedText_def by (intro exI[of _ "[trim txt]"]) simp
      qed
    qed
  qed
qed

section \<open>The entry points never throw\<close>

lemma at_least_two_nlp_result: "\<not> at_least_two (nlp_result locations preferences)"
  by (simp add: at_least_two_def nlp_result_def)

lemma validateAndFormatResponse_no_message:
  "validateAndFormatResponse response = Inr r \<Longrightarrow> get_prop r ''message'' = JUndefined"
  by (auto simp: validateAndFormatResponse_def Let_def js_member_def split: if_splits)

lemma secure_processNaturalLanguage_no_message:
  assumes "secure_processNaturalLanguage functionCall prompted query = Inr r"
  shows "get_prop r ''message'' = JUndefined"
proof -
  from secure_extractLocationsWithRegex_total obtain locations mode where
    regex: "secure_extractLocationsWithRegex query =
              Inr (nlp_result locations (secure_preferences mode query))" by blast
  have last: "get_prop (nlp_result locations (secure_preferences mode query)) ''message'' = JUndefined"
    by (simp add: nlp_result_def)
  from assms regex consider
      (first) response where "functionCall = Inr response" "validateAndFormatResponse response = Inr r"
    | (second) response where "prompted = Inr response" "validateAndFormatResponse response = Inr r"
    | (regex) "r = nlp_result locations (secure_preferences mode query)"
    by (auto simp: secure_processNaturalLanguage_def Let_def has_fallback_def at_least_two_nlp_result
        then_js_def split: sum.splits if_splits)
  then show ?thesis
  proof cases
    case first
    then show ?thesis by (simp add: validateAndFormatResponse_no_message)
  next
    case second
    then show ?thesis by (simp add: validateAndFormatResponse_no_message)
  next
    case regex
    with last show ?thesis by simp
  qed
qed

text \<open>
  C1. For every text, every outcome of the request to the language model and every behaviour
  of \<^verbatim>\<open>JSON.parse\<close>, \<^verbatim>\<open>processNaturalLanguageInput\<close> returns a result and throws nothing, and
  whenever the result is not the reply of the language model (a pattern shortcut applied, or
  the language-model stage failed) its \<^verbatim>\<open>message\<close> is a non-empty text.  For every query and
  every outcome of the two requests, \<^verbatim>\<open>processNaturalLanguage\<close> of the secure module returns a
  result and throws nothing; that result has only \<^verbatim>\<open>locations\<close> and \<^verbatim>\<open>preferences\<close> and no
  \<^verbatim>\<open>message\<close>.
\<close>

theorem C1_never_rejects:
  "(\<exists>r. processNaturalLanguageInput parse outcome inputText = Inr r \<and>
        (pattern_shortcuts inputText \<noteq> None \<or> (\<exists>e. language_model_stage parse outcome = Inl e)
         \<longrightarrow> (\<exists>msg. get_prop r ''message'' = JStr msg \<and> msg \<noteq> []))) \<and>
   (\<exists>r. secure_processNaturalLanguage functionCall prompted query = Inr r \<and>
        get_prop r ''message'' = JUndefined)"
proof (rule conjI)
  show "\<exists>r. processNaturalLanguageInput parse outcome inputText = Inr r \<and>
        (pattern_shortcuts inputText \<noteq> None \<or> (\<exists>e. language_model_stage parse outcome = Inl e)
         \<longrightarrow> (\<exists>msg. get_prop r ''message'' = JStr msg \<and> msg \<noteq> []))"
  proof (cases "pattern_shortcuts inputText \<noteq> None \<or> (\<exists>e. language_model_stage parse outcome = Inl e)")
    case True
    from processNaturalLanguageInput_own_result[OF True] obtain v where
      v: "processNaturalLanguageInput parse outcome inputText = Inr v" "own_result v" by blast
    from own_result_props[OF v(2)] v(1) show ?thesis by auto
  next
    case False
    with processNaturalLanguageInput_total[of parse outcome inputText] show ?thesis by auto
  qed
next
  from secure_processNaturalLanguage_total obtain r where
    r: "secure_processNaturalLanguage functionCall prompted query = Inr r" by blast
  from secure_processNaturalLanguage_no_message[OF r] r
  show "\<exists>r. secure_processNaturalLanguage functionCall prompted query = Inr r \<and>
        get_prop r ''message'' = JUndefined" by blast
qed

theorem C1_never_rejects_witness:
  "(\<exists>r. processNaturalLanguageInput (\<lambda>t. None) FetchRejected ''Paris'' = Inr r \<and>
        (\<exists>msg. get_prop r ''message'' = JStr msg \<and> msg \<noteq> [])) \<and>
   (\<exists>r. secure_processNaturalLanguage (Inl TypeError) (Inl TypeError) ''Paris'' = Inr r \<and>
        get_prop r ''message'' = JUndefined)"
  using C1_never_rejects[of "\<lambda>t. None" FetchRejected "''Paris''" "Inl TypeError" "Inl TypeError" "''Paris''"]
  by (simp add: language_model_stage_def)

theorem C1_counterexample:
  "secure_processNaturalLanguage (Inl TypeError) (Inl (Error ''Invalid response format from Gemini API''))
     ''Paris'' =
     Inr (JObj [(''locations'', JArr [JStr ''Paris'']),
                (''preferences'',
                 JObj [(''transportMode'', JStr ''driving''), (''avoidTolls'', JBool False),
                       (''avoidHighways'', JBool False), (''avoidFerries'', JBool False)])]) \<and>
   get_prop (JObj [(''locations'', JArr [JStr ''Paris'']),
                   (''preferences'',
                    JObj [(''transportMode'', JStr ''driving''), (''avoidTolls'', JBool False),
                          (''avoidHighways'', JBool False), (''avoidFerries'', JBool False)])])
     ''message'' = JUndefined"
  by code_simp

section \<open>Routes and the number of their locations\<close>

lemma built_route_locations:
  assumes "built_route v"
  shows "\<exists>locs. get_prop v ''locations'' = JArr locs \<and> 2 \<le> length locs"
  using assms unfolding built_route_def route_of_waypoints_def
  by (auto simp: get_prop_extraction_result)

lemma gibbon_result_not_route: "get_prop gibbon_result ''isRouteRequest'' = JBool False"
  by (simp add: gibbon_result_def get_prop_extraction_result)

lemma gibbon_result_locations: "\<exists>locs. get_prop gibbon_result ''locations'' = JArr locs"
  by (simp add: gibbon_result_def get_prop_extraction_result)

lemma fallback_multi_waypoint_locations:
  "fallback_multi_waypoint inputText = Some v \<Longrightarrow>
   \<exists>locs. get_prop v ''locations'' = JArr locs \<and> 2 \<le> length locs"
  by (auto simp: fallback_multi_waypoint_def Let_def route_of_waypoints_def get_prop_extraction_result
      split: option.splits if_splits)

lemma at_least_two_JArr: "at_least_two (JArr xs) \<longleftrightarrow> 2 \<le> length xs"
  by (simp add: at_least_two_def)

lemma regex_fallback_locations:
  assumes "regex_fallback inputValue = Inr (Some v)"
  shows "get_prop v ''isRouteRequest'' = JBool True \<and>
         (\<exists>locs. get_prop v ''locations'' = JArr locs \<and> 2 \<le> length locs)"
proof (cases "inputValue = []")
  case True
  with assms show ?thesis
    by (auto simp: regex_fallback_def nlp_extractLocationsWithRegex_empty Let_def
        get_prop_extraction_result split: if_splits)
next
  case False
  from nlp_extractLocationsWithRegex_total[OF False] obtain locations preferences where
    "nlp_extractLocationsWithRegex inputValue = Inr (nlp_result locations preferences)" by blast
  with assms show ?thesis
    by (auto simp: regex_fallback_def Let_def nlp_result_def at_least_two_JArr
        get_prop_extraction_result split: if_splits)
qed

lemma names_of_length: "names_of locs = Inr names \<Longrightarrow> length names = length locs"
proof (induction locs arbitrary: names)
  case Nil
  then show ?case by simp
next
  case (Cons loc locs)
  then show ?case
    by (auto simp: then_js_def split: sum.splits)
qed

section \<open>The travel mode of a result\<close>

declare show_nat.simps [simp del]

lemma show_nat_digits: "set (show_nat n) \<subseteq> set ''0123456789''"
proof (induction n rule: show_nat.induct)
  case (1 n)
  have digit: "digit_char n \<in> set ''0123456789''"
    by (simp only: digit_char.simps) (rule nth_mem, simp)
  show ?case
  proof (cases "n < 10")
    case True
    with digit show ?thesis by (subst show_nat.simps) simp
  next
    case False
    with 1 digit show ?thesis by (subst show_nat.simps) simp
  qed
qed

lemma show_nat_not_transportMode: "show_nat n \<noteq> ''transportMode''"
proof
  assume "show_nat n = ''transportMode''"
  then have "CHR ''t'' \<in> set (show_nat n)" by simp
  with show_nat_digits[of n] show False by auto
qed

lemma indexed_entries_no_mode:
  "map_of (zip (map show_nat [0 ..< n]) xs) ''transportMode'' = None"
proof -
  have "''transportMode'' \<notin> set (map show_nat [0 ..< n])"
  proof
    assume "''transportMode'' \<in> set (map show_nat [0 ..< n])"
    then have "''transportMode'' \<in> show_nat ` set [0 ..< n]"
      by (simp only: set_map)
    then obtain i where "''transportMode'' = show_nat i"
      by (rule imageE)
    with show_nat_not_transportMode[of i] show False
      by (simp del: show_nat.simps)
  qed
  then have "''transportMode'' \<notin> fst ` set (zip (map show_nat [0 ..< n]) xs)"
    by (auto dest: set_zip_leftD)
  then show ?thesis by (simp add: map_of_eq_None_iff)
qed

lemma own_entries_mode:
  "map_of (own_entries v) ''transportMode'' =
     (case v of JObj kvs \<Rightarrow> map_of kvs ''transportMode'' | _ \<Rightarrow> None)"
  by (cases v) (simp_all add: indexed_entries_no_mode del: show_nat.simps)

lemma get_prop_mode_own_entries:
  "map_of (own_entries v) ''transportMode'' = Some x \<Longrightarrow> get_prop v ''transportMode'' = x"
  by (cases v) (simp_all add: indexed_entries_no_mode del: show_nat.simps)

lemma validateAndFormatResponse_default:
  assumes "validateAndFormatResponse response = Inr r"
    and "get_prop (get_prop response ''preferences'') ''transportMode'' \<notin> set (map JStr validModes)"
  shows "get_prop (get_prop r ''preferences'') ''transportMode'' = JStr ''driving''"
proof -
  define given where
    "given = (if truthy (get_prop response ''preferences'')
              then own_entries (get_prop response ''preferences'') @ defaultPreferences
              else defaultPreferences)"
  define preferences where
    "preferences = (if get_prop (JObj given) ''transportMode'' \<notin> set (map JStr validModes)
                    then set_prop (JObj given) ''transportMode'' (JStr ''driving'')
                    else JObj given)"
  from assms(1) have r: "get_prop r ''preferences'' = preferences"
    by (auto simp: validateAndFormatResponse_def Let_def js_member_def preferences_def given_def
        split: if_splits)
  have "get_prop (JObj given) ''transportMode'' \<in> set (map JStr validModes) \<Longrightarrow>
        get_prop (JObj given) ''transportMode'' = JStr ''driving''"
  proof (cases "map_of (own_entries (get_prop response ''preferences'')) ''transportMode''")
    case None
    then show ?thesis
      by (simp add: given_def defaultPreferences_def map_add_def)
  next
    case (Some x)
    assume valid: "get_prop (JObj given) ''transportMode'' \<in> set (map JStr validModes)"
    show ?thesis
    proof (cases "truthy (get_prop response ''preferences'')")
      case True
      with Some have "get_prop (JObj given) ''transportMode'' = x"
        by (simp add: given_def map_add_def)
      with get_prop_mode_own_entries[OF Some] valid assms(2) show ?thesis by simp
    next
      case False
      then show ?thesis by (simp add: given_def defaultPreferences_def)
    qed
  qed
  moreover have "get_prop (set_prop (JObj given) ''transportMode'' (JStr ''driving'')) ''transportMode'' =
                 JStr ''driving''"
    by (simp only: get_prop_set_prop)
  ultimately have "get_prop preferences ''transportMode'' = JStr ''driving''"
    by (auto simp: preferences_def)
  with r show ?thesis by simp
qed

lemma secure_result_mode:
  assumes "secure_processNaturalLanguage functionCall prompted query = Inr r"
  shows "\<exists>mode. get_prop (get_prop r ''preferences'') ''transportMode'' = JStr mode \<and>
                mode \<in> set validModes"
proof -
  from secure_extractLocationsWithRegex_total obtain locations mode where
    regex: "secure_extractLocationsWithRegex query =
              Inr (nlp_result locations (secure_preferences mode query))"
    and mode: "mode \<in> set validModes" by blast
  have last: "get_prop (get_prop (nlp_result locations (secure_preferences mode query)) ''preferences'')
                ''transportMode'' = JStr mode"
    by (simp add: nlp_result_def secure_preferences_def preferences_obj_def)
  from assms regex consider
      (first) response where "functionCall = Inr response" "validateAndFormatResponse response = Inr r"
    | (second) response where "prompted = Inr response" "validateAndFormatResponse response = Inr r"
    | (regex) "r = nlp_result locations (secure_preferences mode query)"
    by (auto simp: secure_processNaturalLanguage_def Let_def has_fallback_def at_least_two_nlp_result
        then_js_def split: sum.splits if_splits)
  then show ?thesis
  proof cases
    case first
    then show ?thesis by (simp add: validateAndFormatResponse_mode)
  next
    case second
    then show ?thesis by (simp add: validateAndFormatResponse_mode)
  next
    case regex
    with last mode show ?thesis by simp
  qed
qed

text \<open>
  A reply of the language model, the value \<^verbatim>\<open>JSON.parse\<close> gives for it, and a \<^verbatim>\<open>JSON.parse\<close>
  that reads this one text.
\<close>

definition reply_text :: string where
  \<open>reply_text =
     ''{"isRouteRequest": false, "locations": ["Paris"], "travelMode": "flying", "suggestedSequence": []}''\<close>

definition reply_value :: jsval where
  "reply_value =
     JObj [(''isRouteRequest'', JBool False), (''locations'', JArr [JStr ''Paris'']),
           (''travelMode'', JStr ''flying''), (''suggestedSequence'', JArr [])]"

definition parse_reply :: json_parser where
  "parse_reply t = (if t = reply_text then Some reply_value else None)"

lemma validate_without_preferences:
  "validateAndFormatResponse (JObj [(''locations'', JArr [JStr ''Paris''])]) =
     Inr (JObj [(''locations'', JArr [JStr ''Paris'']), (''preferences'', JObj defaultPreferences)])"
  by code_simp

lemma secure_with_function_call:
  "secure_processNaturalLanguage (Inr (JObj [(''locations'', JArr [JStr ''Paris''])])) (Inl TypeError)
     ''Paris'' =
     Inr (JObj [(''locations'', JArr [JStr ''Paris'']), (''preferences'', JObj defaultPreferences)])"
  by code_simp

lemma paragraph_after_rejection:
  "processNaturalLanguageInput (\<lambda>t. None) FetchRejected ''Paris'' =
     Inr (extractLocationsFromParagraph ''Paris'')"
  by code_simp

text \<open>
  C3. \<^verbatim>\<open>validateAndFormatResponse\<close> of the secure module returns a \<^verbatim>\<open>transportMode\<close> that is one
  of driving, walking, cycling and transit, and driving where the response has no such mode;
  so does every result of the secure module's \<^verbatim>\<open>processNaturalLanguage\<close>.  Every result that
  \<^verbatim>\<open>processNaturalLanguageInput\<close> of the enhanced module builds itself (a pattern shortcut
  applied, or the language-model stage failed) has a \<^verbatim>\<open>travelMode\<close> among the four.
\<close>

theorem C3_travel_mode_enum:
  "(validateAndFormatResponse response = Inr r \<longrightarrow>
      (\<exists>mode. get_prop (get_prop r ''preferences'') ''transportMode'' = JStr mode \<and>
              mode \<in> set validModes) \<and>
      (get_prop (get_prop response ''preferences'') ''transportMode'' \<notin> set (map JStr validModes)
       \<longrightarrow> get_prop (get_prop r ''preferences'') ''transportMode'' = JStr ''driving'')) \<and>
   (secure_processNaturalLanguage functionCall prompted query = Inr s \<longrightarrow>
      (\<exists>mode. get_prop (get_prop s ''preferences'') ''transportMode'' = JStr mode \<and>
              mode \<in> set validModes)) \<and>
   ((pattern_shortcuts inputText \<noteq> None \<or> (\<exists>e. language_model_stage parse outcome = Inl e)) \<and>
    processNaturalLanguageInput parse outcome inputText = Inr v \<longrightarrow>
      (\<exists>mode. get_prop v ''travelMode'' = JStr mode \<and> mode \<in> set validModes))"
proof (intro conjI impI)
  assume "validateAndFormatResponse response = Inr r"
  then show "\<exists>mode. get_prop (get_prop r ''preferences'') ''transportMode'' = JStr mode \<and>
                    mode \<in> set validModes"
    by (rule validateAndFormatResponse_mode)
next
  assume "validateAndFormatResponse response = Inr r"
    and "get_prop (get_prop response ''preferences'') ''transportMode'' \<notin> set (map JStr validModes)"
  then show "get_prop (get_prop r ''preferences'') ''transportMode'' = JStr ''driving''"
    by (rule validateAndFormatResponse_default)
next
  assume "secure_processNaturalLanguage functionCall prompted query = Inr s"
  then show "\<exists>mode. get_prop (get_prop s ''preferences'') ''transportMode'' = JStr mode \<and>
                    mode \<in> set validModes"
    by (rule secure_result_mode)
next
  assume own: "(pattern_shortcuts inputText \<noteq> None \<or> (\<exists>e. language_model_stage parse outcome = Inl e)) \<and>
               processNaturalLanguageInput parse outcome inputText = Inr v"
  with processNaturalLanguageInput_own_result[of inputText parse outcome] have "own_result v"
    by auto
  from own_result_props[OF this]
  show "\<exists>mode. get_prop v ''travelMode'' = JStr mode \<and> mode \<in> set validModes" by blast
qed

theorem C3_travel_mode_enum_witness:
  "(\<exists>mode. get_prop (get_prop (JObj [(''locations'', JArr [JStr ''Paris'']),
                                      (''preferences'', JObj defaultPreferences)])
                         ''preferences'') ''transportMode'' = JStr mode \<and>
           mode \<in> set validModes) \<and>
   get_prop (get_prop (JObj [(''locations'', JArr [JStr ''Paris'']),
                             (''preferences'', JObj defaultPreferences)])
                ''preferences'') ''transportMode'' = JStr ''driving'' \<and>
   (\<exists>mode. get_prop (extractLocationsFromParagraph ''Paris'') ''travelMode'' = JStr mode \<and>
           mode \<in> set validModes)"
  using C3_travel_mode_enum[of "JObj [(''locations'', JArr [JStr ''Paris''])]"
      "JObj [(''locations'', JArr [JStr ''Paris'']), (''preferences'', JObj defaultPreferences)]"
      "Inr (JObj [(''locations'', JArr [JStr ''Paris''])])" "Inl TypeError" "''Paris''"
      "JObj [(''locations'', JArr [JStr ''Paris'']), (''preferences'', JObj defaultPreferences)]"
      "''Paris''" "\<lambda>t. None" FetchRejected "extractLocationsFromParagraph ''Paris''"]
    validate_without_preferences secure_with_function_call paragraph_after_rejection
  by (simp add: language_model_stage_def validModes_def)

theorem C3_counterexample:
  "processNaturalLanguageInput parse_reply (reply_with_text reply_text) ''Paris'' =
     Inr (JObj [(''isRouteRequest'', JBool False),
                (''locations'', JArr [JObj [(''name'', JStr ''Paris''), (''timeContext'', JStr [])]]),
                (''travelMode'', JStr ''flying''), (''suggestedSequence'', JArr [])]) \<and>
   ''flying'' \<notin> set validModes"
  by code_simp

section \<open>The suggested sequence of a result\<close>

lemma regex_fallback_sequence:
  assumes "regex_fallback inputValue = Inr (Some v)"
  shows "\<exists>locs. get_prop v ''locations'' = JArr locs \<and>
               get_prop v ''suggestedSequence'' = JArr (map name_of locs)"
proof (cases "inputValue = []")
  case True
  with assms show ?thesis
    by (auto simp: regex_fallback_def nlp_extractLocationsWithRegex_empty Let_def
        get_prop_extraction_result names_of_waypoints split: if_splits)
next
  case False
  from nlp_extractLocationsWithRegex_total[OF False] obtain locations preferences where
    "nlp_extractLocationsWithRegex inputValue = Inr (nlp_result locations preferences)" by blast
  with assms show ?thesis
    by (auto simp: regex_fallback_def Let_def nlp_result_def at_least_two_JArr comp_def
        get_prop_extraction_result names_of_waypoints split: if_splits)
qed

definition reordered_reply_text :: string where
  \<open>reordered_reply_text =
     ''{"isRouteRequest": true, "locations": ["Paris", "Rome"], "travelMode": "driving", "suggestedSequence": ["Rome", "Paris", "Oslo"]}''\<close>

definition reordered_reply_value :: jsval where
  "reordered_reply_value =
     JObj [(''isRouteRequest'', JBool True), (''locations'', JArr [JStr ''Paris'', JStr ''Rome'']),
           (''travelMode'', JStr ''driving''),
           (''suggestedSequence'', JArr [JStr ''Rome'', JStr ''Paris'', JStr ''Oslo''])]"

definition parse_reordered_reply :: json_parser where
  "parse_reordered_reply t = (if t = reordered_reply_text then Some reordered_reply_value else None)"

lemma paragraph_after_bad_status:
  "processNaturalLanguageInput (\<lambda>t. None) (FetchResponse False None) ''Paris'' =
     Inr (extractLocationsFromParagraph ''Paris'')"
  by code_simp

lemma regex_fallback_B_to_A:
  "regex_fallback ''B to A'' =
     Inr (Some (extraction_result True [location (JStr ''B'') (JStr []), location (JStr ''A'') (JStr [])]
                  ''driving'' ''Creating a route between B and A'' [JStr ''B'', JStr ''A'']))"
  by code_simp

text \<open>
  C9. Every result that \<^verbatim>\<open>processNaturalLanguageInput\<close> builds itself (a pattern shortcut
  applied, or the language-model stage failed) and every result the click handler adapts from
  the regex extractors has a \<^verbatim>\<open>suggestedSequence\<close> that lists the names of its \<^verbatim>\<open>locations\<close>, in
  the same order and so of the same length.
\<close>

theorem C9_sequence_lists_the_names:
  "((pattern_shortcuts inputText \<noteq> None \<or> (\<exists>e. language_model_stage parse outcome = Inl e)) \<and>
    processNaturalLanguageInput parse outcome inputText = Inr v \<longrightarrow>
      (\<exists>locs. get_prop v ''locations'' = JArr locs \<and>
              get_prop v ''suggestedSequence'' = JArr (map name_of locs))) \<and>
   (regex_fallback inputValue = Inr (Some a) \<longrightarrow>
      (\<exists>locs. get_prop a ''locations'' = JArr locs \<and>
              get_prop a ''suggestedSequence'' = JArr (map name_of locs)))"
proof (intro conjI impI)
  assume own: "(pattern_shortcuts inputText \<noteq> None \<or> (\<exists>e. language_model_stage parse outcome = Inl e)) \<and>
               processNaturalLanguageInput parse outcome inputText = Inr v"
  with processNaturalLanguageInput_own_result[of inputText parse outcome] have "own_result v"
    by auto
  from own_result_props[OF this]
  show "\<exists>locs. get_prop v ''locations'' = JArr locs \<and>
               get_prop v ''suggestedSequence'' = JArr (map name_of locs)" by blast
next
  assume "regex_fallback inputValue = Inr (Some a)"
  then show "\<exists>locs. get_prop a ''locations'' = JArr locs \<and>
                    get_prop a ''suggestedSequence'' = JArr (map name_of locs)"
    by (rule regex_fallback_sequence)
qed

theorem C9_sequence_lists_the_names_witness:
  "(\<exists>locs. get_prop (extractLocationsFromParagraph ''Paris'') ''locations'' = JArr locs \<and>
           get_prop (extractLocationsFromParagraph ''Paris'') ''suggestedSequence'' =
             JArr (map name_of locs)) \<and>
   (\<exists>locs. get_prop (extraction_result True
                       [location (JStr ''B'') (JStr []), location (JStr ''A'') (JStr [])]
                       ''driving'' ''Creating a route between B and A'' [JStr ''B'', JStr ''A''])
             ''locations'' = JArr locs \<and>
           get_prop (extraction_result True
                       [location (JStr ''B'') (JStr []), location (JStr ''A'') (JStr [])]
                       ''driving'' ''Creating a route between B and A'' [JStr ''B'', JStr ''A''])
             ''suggestedSequence'' = JArr (map name_of locs))"
  using C9_sequence_lists_the_names[of "''Paris''" "\<lambda>t. None" "FetchResponse False None"
      "extractLocationsFromParagraph ''Paris''" "''B to A''"
      "extraction_result True [location (JStr ''B'') (JStr []), location (JStr ''A'') (JStr [])]
         ''driving'' ''Creating a route between B and A'' [JStr ''B'', JStr ''A'']"]
    paragraph_after_bad_status regex_fallback_B_to_A
  by (simp add: language_model_stage_def)

theorem C9_counterexample:
  "processNaturalLanguageInput parse_reordered_reply (reply_with_text reordered_reply_text) ''Paris'' =
     Inr (JObj [(''isRouteRequest'', JBool True),
                (''locations'', JArr [JObj [(''name'', JStr ''Paris''), (''timeContext'', JStr [])],
                                      JObj [(''name'', JStr ''Rome''), (''timeContext'', JStr [])]]),
                (''travelMode'', JStr ''driving''),
                (''suggestedSequence'', JArr [JStr ''Rome'', JStr ''Paris'', JStr ''Oslo''])])"
  by code_simp

section \<open>What the regex extractors return when nothing matches\<close>

lemma separators_A_to_B: "try_separators separators ''A to B'' = Some (Inr [''A'', ''B''])"
  by code_simp

text \<open>
  C8. \<^verbatim>\<open>extractLocationsWithRegex\<close> of nlp.js never throws.  For the empty text it returns an
  empty list.  For every other text it returns an object with \<^verbatim>\<open>locations\<close> and \<^verbatim>\<open>preferences\<close>
  whose locations are two or more, or else exactly one: the text without its leading and
  trailing command words, or the trimmed text itself.  A separator rule contributes two
  locations or more, or is skipped.  \<^verbatim>\<open>extractLocationsWithRegex\<close> of the secure module never
  throws and returns an object with \<^verbatim>\<open>locations\<close> and \<^verbatim>\<open>preferences\<close>.
\<close>

theorem C8_regex_extractors:
  "nlp_extractLocationsWithRegex [] = Inr (JArr []) \<and>
   (txt \<noteq> [] \<longrightarrow>
      (\<exists>locations preferences.
         nlp_extractLocationsWithRegex txt = Inr (nlp_result locations preferences) \<and>
         (2 \<le> length locations \<or>
          locations = [nlp_cleanedText (js_replace_g ws_run (\<lambda>m. '' '') (trim txt))] \<or>
          locations = [trim txt]))) \<and>
   (try_separators seps normalizedText = Some found \<longrightarrow>
      (\<exists>locations. found = Inr locations \<and> 2 \<le> length locations)) \<and>
   (\<exists>locations preferences.
      secure_extractLocationsWithRegex query = Inr (nlp_result locations preferences))"
proof (intro conjI impI)
  show "nlp_extractLocationsWithRegex [] = Inr (JArr [])"
    by (rule nlp_extractLocationsWithRegex_empty)
next
  assume "txt \<noteq> []"
  from nlp_extractLocationsWithRegex_total[OF this]
  show "\<exists>locations preferences.
         nlp_extractLocationsWithRegex txt = Inr (nlp_result locations preferences) \<and>
         (2 \<le> length locations \<or>
          locations = [nlp_cleanedText (js_replace_g ws_run (\<lambda>m. '' '') (trim txt))] \<or>
          locations = [trim txt])"
    by blast
next
  assume "try_separators seps normalizedText = Some found"
  then show "\<exists>locations. found = Inr locations \<and> 2 \<le> length locations"
    by (rule try_separators_total)
next
  from secure_extractLocationsWithRegex_total[of query]
  show "\<exists>locations preferences.
      secure_extractLocationsWithRegex query = Inr (nlp_result locations preferences)"
    by blast
qed

theorem C8_regex_extractors_witness:
  "(\<exists>locations preferences.
      nlp_extractLocationsWithRegex ''Paris'' = Inr (nlp_result locations preferences) \<and>
      (2 \<le> length locations \<or>
       locations = [nlp_cleanedText (js_replace_g ws_run (\<lambda>m. '' '') (trim ''Paris''))] \<or>
       locations = [trim ''Paris''])) \<and>
   (\<exists>locations. (Inr [''A'', ''B''] :: js_error + string list) = Inr locations \<and>
                2 \<le> length locations)"
  using C8_regex_extractors[of "''Paris''" separators "''A to B''" "Inr [''A'', ''B'']" "''Paris''"]
    separators_A_to_B
  by simp

theorem C8_counterexample:
  "nlp_extractLocationsWithRegex ''Paris'' =
     Inr (nlp_result [''Paris''] (preferences_obj ''driving'' False False False)) \<and>
   secure_extractLocationsWithRegex ''from Boston'' =
     Inr (nlp_result [''Boston''] (preferences_obj ''driving'' False False False))"
  by code_simp

section \<open>What \<^verbatim>\<open>handleProcessedResult\<close> does with a result\<close>

lemma handleProcessedResult_route:
  assumes "handleProcessedResult order result = Inr (CreateRoute routeLocations travelMode preferences)"
  shows "truthy (get_prop result ''isRouteRequest'') \<and>
         (\<exists>locs. get_prop result ''locations'' = JArr locs \<and> 2 \<le> length locs)"
proof -
  from assms obtain locs names where
    "get_prop result ''locations'' = JArr locs" "names_of locs = Inr names"
    "truthy (get_prop result ''isRouteRequest'')" "2 \<le> length names"
    by (auto simp: handleProcessedResult_def js_member_def then_js_def Let_def
        split: if_splits jsval.splits sum.splits)
  with names_of_length[of locs names] show ?thesis by simp
qed

lemma handleProcessedResult_few:
  assumes "get_prop result ''locations'' = JArr locs" "length locs < 2"
    "handleProcessedResult order result = Inr action"
  shows "action = (if locs = [] then NoLocationsMessage else ShowLocations (JArr locs))"
proof -
  from assms(1) have defined: "result \<noteq> JUndefined" "result \<noteq> JNull" by auto
  show ?thesis
  proof (cases "locs = []")
    case True
    with assms defined show ?thesis
      by (simp add: handleProcessedResult_def js_member_def)
  next
    case False
    with assms(2) obtain loc where locs: "locs = [loc]"
      by (cases locs) auto
    with assms defined show ?thesis
      by (auto simp: handleProcessedResult_def js_member_def then_js_def Let_def
          split: if_splits sum.splits)
  qed
qed

lemma basic_fallback_classification:
  assumes "basic_fallback isLikelyRouteRequest inputText = Inr v"
  shows "get_prop v ''isRouteRequest'' = JBool isLikelyRouteRequest \<and>
         (\<exists>locs. extractLocationsBasic inputText = Inr locs \<and>
                 get_prop v ''locations'' = JArr (map (\<lambda>loc. location (JStr loc) (JStr [])) locs))"
proof -
  from extractLocationsBasic_total obtain locs where "extractLocationsBasic inputText = Inr locs"
    by blast
  with assms show ?thesis
    by (auto simp: basic_fallback_def get_prop_extraction_result)
qed

lemma after_failure_keyword:
  assumes "js_test routingKeywords inputText"
    and "\<not> (str_includes inputText ''Mediterranean'' \<and> str_includes inputText ''sub-Saharan Africa'' \<and>
            str_includes inputText ''China'' \<and> str_includes inputText ''Constantinople'')"
    and "fallback_multi_waypoint inputText = None"
    and "after_failure inputText = Inr v"
  shows "get_prop v ''isRouteRequest'' = JBool True \<and>
         (\<exists>locs. extractLocationsBasic inputText = Inr locs \<and>
                 get_prop v ''locations'' = JArr (map (\<lambda>loc. location (JStr loc) (JStr [])) locs))"
proof -
  from assms have "basic_fallback True inputText = Inr v"
    by (auto simp: after_failure_def Let_def split: if_splits)
  from basic_fallback_classification[OF this] show ?thesis .
qed

lemma shortcut_from_A_to_B:
  "pattern_shortcuts ''from A to B'' = Some (Inr (two_stop_route ''driving'' ''A'' ''B''))"
  by code_simp

lemma fallback_from_A_to_B:
  "fallback_multi_waypoint ''from A to B'' =
     Some (route_of_waypoints ''driving'' (''Creating a route with multiple stops: A'' @ arrow @ ''B'')
             [''A'', ''B''])"
  by code_simp

lemma regex_fallback_A_to_B:
  "regex_fallback ''A to B'' =
     Inr (Some (extraction_result True [location (JStr ''A'') (JStr []), location (JStr ''B'') (JStr [])]
                  ''driving'' ''Creating a route between A and B'' [JStr ''A'', JStr ''B'']))"
  by code_simp

lemma handle_route_A_B:
  "handleProcessedResult order (two_stop_route ''driving'' ''A'' ''B'') =
     Inr (CreateRoute (JArr [JStr ''A'', JStr ''B'']) (JStr ''driving'') (JArr []))"
  by (simp add: handleProcessedResult_def two_stop_route_def route_of_waypoints_def
      get_prop_extraction_result js_member_def extraction_result_def location_def
      preferences_in_message_def js_gt_def js_ge_def Let_def)

lemma handle_one_location:
  "handleProcessedResult order
     (extraction_result True [location (JStr ''Rome'') (JStr [])] ''driving'' ''m'' [JStr ''Rome'']) =
     Inr (ShowLocations (JArr [location (JStr ''Rome'') (JStr [])]))"
  by (simp add: handleProcessedResult_def js_member_def extraction_result_def location_def)

lemma handle_text_preferences:
  "handleProcessedResult order
     (JObj [(''isRouteRequest'', JBool True),
            (''locations'', JArr [location (JStr ''A'') (JStr []), location (JStr ''B'') (JStr [])]),
            (''preferences'', JStr ''scenic'')]) = Inl TypeError"
  by (simp add: handleProcessedResult_def js_member_def location_def preferences_in_message_def
      js_gt_def)

lemma route_Rome_keyword: "js_test routingKeywords ''route Rome''"
  by code_simp

lemma route_Rome_no_history:
  "\<not> (str_includes ''route Rome'' ''Mediterranean'' \<and> str_includes ''route Rome'' ''sub-Saharan Africa'' \<and>
      str_includes ''route Rome'' ''China'' \<and> str_includes ''route Rome'' ''Constantinople'')"
  by code_simp

lemma route_Rome_no_chain: "fallback_multi_waypoint ''route Rome'' = None"
  by code_simp

lemma route_Rome_after_failure:
  "after_failure ''route Rome'' =
     Inr (extraction_result True [location (JStr ''Rome'') (JStr [])] ''driving''
            (''I had trouble understanding the details, but I'' @ [CHR 0x27] @
             ''ll try to map what I understood.'')
            [JStr ''Rome''])"
  by code_simp

lemma route_Rome_basic: "extractLocationsBasic ''route Rome'' = Inr [''Rome'']"
  by code_simp

text \<open>
  C2. Every route that the pattern shortcuts of \<^verbatim>\<open>processNaturalLanguageInput\<close>, its
  multi-waypoint fallback and the click handler's regex fallback build has two locations or
  more.  The basic fallback, which \<^verbatim>\<open>processNaturalLanguageInput\<close> reaches after a failure of the
  language-model stage for a text with a routing keyword, returns \<^verbatim>\<open>isRouteRequest\<close> true with
  the locations that \<^verbatim>\<open>extractLocationsBasic\<close> finds, however few.  \<^verbatim>\<open>handleProcessedResult\<close>
  creates a route only for a result whose \<^verbatim>\<open>isRouteRequest\<close> is truthy and that has two
  locations or more; a result with fewer than two locations is shown as the list of its
  locations, or as the message that none was found, whatever its \<^verbatim>\<open>isRouteRequest\<close> says.
\<close>

theorem C2_routes_have_two_locations:
  "(pattern_shortcuts inputText = Some (Inr v) \<and> get_prop v ''isRouteRequest'' = JBool True \<longrightarrow>
      (\<exists>locs. get_prop v ''locations'' = JArr locs \<and> 2 \<le> length locs)) \<and>
   (fallback_multi_waypoint inputText = Some w \<longrightarrow>
      (\<exists>locs. get_prop w ''locations'' = JArr locs \<and> 2 \<le> length locs)) \<and>
   (regex_fallback inputValue = Inr (Some a) \<longrightarrow>
      get_prop a ''isRouteRequest'' = JBool True \<and>
      (\<exists>locs. get_prop a ''locations'' = JArr locs \<and> 2 \<le> length locs)) \<and>
   (js_test routingKeywords failedText \<and>
    \<not> (str_includes failedText ''Mediterranean'' \<and> str_includes failedText ''sub-Saharan Africa'' \<and>
       str_includes failedText ''China'' \<and> str_includes failedText ''Constantinople'') \<and>
    fallback_multi_waypoint failedText = None \<and> after_failure failedText = Inr b \<longrightarrow>
      get_prop b ''isRouteRequest'' = JBool True \<and>
      (\<exists>locs. extractLocationsBasic failedText = Inr locs \<and>
              get_prop b ''locations'' = JArr (map (\<lambda>loc. location (JStr loc) (JStr [])) locs))) \<and>
   (handleProcessedResult order result = Inr (CreateRoute routeLocations travelMode preferences) \<longrightarrow>
      truthy (get_prop result ''isRouteRequest'') \<and>
      (\<exists>locs. get_prop result ''locations'' = JArr locs \<and> 2 \<le> length locs)) \<and>
   (get_prop shown ''locations'' = JArr few \<and> length few < 2 \<and>
    handleProcessedResult order shown = Inr action \<longrightarrow>
      action = (if few = [] then NoLocationsMessage else ShowLocations (JArr few)))"
proof (intro conjI impI)
  assume "pattern_shortcuts inputText = Some (Inr v) \<and> get_prop v ''isRouteRequest'' = JBool True"
  with pattern_shortcuts_shape[of inputText "Inr v"] gibbon_result_not_route
  have "built_route v" by auto
  then show "\<exists>locs. get_prop v ''locations'' = JArr locs \<and> 2 \<le> length locs"
    by (rule built_route_locations)
next
  assume "fallback_multi_waypoint inputText = Some w"
  then show "\<exists>locs. get_prop w ''locations'' = JArr locs \<and> 2 \<le> length locs"
    by (rule fallback_multi_waypoint_locations)
next
  assume "regex_fallback inputValue = Inr (Some a)"
  from regex_fallback_locations[OF this]
  show "get_prop a ''isRouteRequest'' = JBool True"
    and "\<exists>locs. get_prop a ''locations'' = JArr locs \<and> 2 \<le> length locs"
    by simp_all
next
  assume failed: "js_test routingKeywords failedText \<and>
    \<not> (str_includes failedText ''Mediterranean'' \<and> str_includes failedText ''sub-Saharan Africa'' \<and>
       str_includes failedText ''China'' \<and> str_includes failedText ''Constantinople'') \<and>
    fallback_multi_waypoint failedText = None \<and> after_failure failedText = Inr b"
  then have "get_prop b ''isRouteRequest'' = JBool True \<and>
      (\<exists>locs. extractLocationsBasic failedText = Inr locs \<and>
              get_prop b ''locations'' = JArr (map (\<lambda>loc. location (JStr loc) (JStr [])) locs))"
    by (intro after_failure_keyword) simp_all
  then show "get_prop b ''isRouteRequest'' = JBool True"
    and "\<exists>locs. extractLocationsBasic failedText = Inr locs \<and>
              get_prop b ''locations'' = JArr (map (\<lambda>loc. location (JStr loc) (JStr [])) locs)"
    by simp_all
next
  assume "handleProcessedResult order result = Inr (CreateRoute routeLocations travelMode preferences)"
  from handleProcessedResult_route[OF this]
  show "truthy (get_prop result ''isRouteRequest'')"
    and "\<exists>locs. get_prop result ''locations'' = JArr locs \<and> 2 \<le> length locs"
    by simp_all
next
  assume "get_prop shown ''locations'' = JArr few \<and> length few < 2 \<and>
          handleProcessedResult order shown = Inr action"
  then show "action = (if few = [] then NoLocationsMessage else ShowLocations (JArr few))"
    using handleProcessedResult_few[of shown few order action] by simp
qed

theorem C2_routes_have_two_locations_witness:
  "(\<exists>locs. get_prop (two_stop_route ''driving'' ''A'' ''B'') ''locations'' = JArr locs \<and>
           2 \<le> length locs) \<and>
   (\<exists>locs. get_prop (route_of_waypoints ''driving''
                       (''Creating a route with multiple stops: A'' @ arrow @ ''B'') [''A'', ''B''])
             ''locations'' = JArr locs \<and> 2 \<le> length locs) \<and>
   (\<exists>locs. get_prop (extraction_result True
                       [location (JStr ''A'') (JStr []), location (JStr ''B'') (JStr [])]
                       ''driving'' ''Creating a route between A and B'' [JStr ''A'', JStr ''B''])
             ''locations'' = JArr locs \<and> 2 \<le> length locs) \<and>
   get_prop (extraction_result True [location (JStr ''Rome'') (JStr [])] ''driving''
               (''I had trouble understanding the details, but I'' @ [CHR 0x27] @
                ''ll try to map what I understood.'')
               [JStr ''Rome'']) ''locations'' =
     JArr (map (\<lambda>loc. location (JStr loc) (JStr [])) [''Rome'']) \<and>
   truthy (get_prop (two_stop_route ''driving'' ''A'' ''B'') ''isRouteRequest'') \<and>
   ShowLocations (JArr [location (JStr ''Rome'') (JStr [])]) =
     (if [location (JStr ''Rome'') (JStr [])] = [] then NoLocationsMessage
      else ShowLocations (JArr [location (JStr ''Rome'') (JStr [])]))"
  using C2_routes_have_two_locations[of "''from A to B''" "two_stop_route ''driving'' ''A'' ''B''"
      "route_of_waypoints ''driving'' (''Creating a route with multiple stops: A'' @ arrow @ ''B'')
         [''A'', ''B'']"
      "''A to B''"
      "extraction_result True [location (JStr ''A'') (JStr []), location (JStr ''B'') (JStr [])]
         ''driving'' ''Creating a route between A and B'' [JStr ''A'', JStr ''B'']"
      "''route Rome''"
      "extraction_result True [location (JStr ''Rome'') (JStr [])] ''driving''
         (''I had trouble understanding the details, but I'' @ [CHR 0x27] @
          ''ll try to map what I understood.'')
         [JStr ''Rome'']"
      "\<lparr>text_ge = \<lambda>s n. False, text_gt = \<lambda>s n. False\<rparr>"
      "two_stop_route ''driving'' ''A'' ''B''" "JArr [JStr ''A'', JStr ''B'']" "JStr ''driving''"
      "JArr []"
      "extraction_result True [location (JStr ''Rome'') (JStr [])] ''driving'' ''m'' [JStr ''Rome'']"
      "[location (JStr ''Rome'') (JStr [])]"
      "ShowLocations (JArr [location (JStr ''Rome'') (JStr [])])"]
    shortcut_from_A_to_B fallback_from_A_to_B regex_fallback_A_to_B handle_route_A_B
    handle_one_location route_Rome_keyword route_Rome_no_history route_Rome_no_chain
    route_Rome_after_failure route_Rome_basic
  by (simp add: get_prop_extraction_result two_stop_route_def route_of_waypoints_def)

theorem C2_counterexample:
  "processNaturalLanguageInput (\<lambda>t. None) FetchRejected ''route Rome'' =
     Inr (extraction_result True [location (JStr ''Rome'') (JStr [])] ''driving''
            (''I had trouble understanding the details, but I'' @ [CHR 0x27] @
             ''ll try to map what I understood.'')
            [JStr ''Rome''])"
  by code_simp

section \<open>One input: avoid tolls and walking from Boston to Providence\<close>

text \<open>
  C4. For the text \<^verbatim>\<open>avoid tolls and walking from Boston to Providence\<close>,
  \<^verbatim>\<open>extractLocationsWithRegex\<close> of nlp.js returns \<^verbatim>\<open>avoidTolls\<close> false, with the transport mode
  walking: its pattern for tolls asks for a word boundary after \<^verbatim>\<open>avoid toll\<close>, and in the text
  the letter \<^verbatim>\<open>s\<close> follows.  The two patterns of the secure module for the same preference,
  which ask for no boundary or accept \<^verbatim>\<open>tolls\<close>, match the text.  The first location that nlp.js
  returns is the whole text before the word \<^verbatim>\<open>to\<close>; the shortcut of
  \<^verbatim>\<open>processNaturalLanguageInput\<close> finds Boston and Providence and the mode walking, and records
  no preference.
\<close>

theorem C4_avoid_tolls_missed:
  "nlp_extractLocationsWithRegex ''avoid tolls and walking from Boston to Providence'' =
     Inr (nlp_result [''avoid tolls and walking from Boston'', ''Providence'']
            (preferences_obj ''walking'' False False False)) \<and>
   js_test toll_words ''avoid tolls and walking from Boston to Providence'' = False \<and>
   js_test (keyword [''no toll'', ''avoid toll'', ''without toll''])
     ''avoid tolls and walking from Boston to Providence'' \<and>
   js_test (avoiding [''toll'', ''tolls'']) ''avoid tolls and walking from Boston to Providence'' \<and>
   processNaturalLanguageInput (\<lambda>t. None) FetchRejected
     ''avoid tolls and walking from Boston to Providence'' =
     Inr (extraction_result True
            [location (JStr ''Boston'') (JStr []), location (JStr ''Providence'') (JStr [])]
            ''walking'' ''Creating a walking route from Boston to Providence''
            [JStr ''Boston'', JStr ''Providence''])"
  by code_simp

section \<open>Routes with several stops\<close>

lemma trimEnd_trimEnd: "trimEnd (trimEnd s) = trimEnd s"
  by (simp add: trimEnd_def dropWhile_idem)

lemma trim_trim: "trim (trim s) = trim s"
proof -
  have "trim (trim s) = trimEnd (trimStart (trim s))" by (simp add: trim_def)
  also have "\<dots> = trimEnd (trim s)" by (simp add: trimStart_trim)
  also have "\<dots> = trim s" by (simp add: trim_def trimEnd_trimEnd)
  finally show ?thesis .
qed

subsection \<open>Removing one trailing mark\<close>

definition one_mark_removed :: "string \<Rightarrow> string" where
  \<comment> \<open>the text without its last character, if that is one of the marks \<^verbatim>\<open>,.!?;\<close>\<close>
  "one_mark_removed s = (if s \<noteq> [] \<and> last s \<in> set '',.!?;'' then butlast s else s)"

lemma match_here_one_trailing_mark:
  "match_here one_trailing_mark l v =
     (case v of
        [c] \<Rightarrow> if c \<in> set '',.!?;''
               then Some \<lparr>before = rev l, matched = [c], groups = [None], after = []\<rparr> else None
      | _ \<Rightarrow> None)"
proof (cases v)
  case Nil
  then show ?thesis by (simp add: match_here_def one_trailing_mark_def)
next
  case (Cons c cs)
  then show ?thesis
    by (cases cs) (auto simp: match_here_def one_trailing_mark_def cls_has_def char_eq_def)
qed

lemma search_one_trailing_mark:
  "search one_trailing_mark l s =
     (if s \<noteq> [] \<and> last s \<in> set '',.!?;''
      then Some \<lparr>before = rev l @ butlast s, matched = [last s], groups = [None], after = []\<rparr>
      else None)"
proof (induction s arbitrary: l)
  case Nil
  show ?case by (simp add: match_here_one_trailing_mark)
next
  case (Cons c cs)
  show ?case
  proof (cases cs)
    case Nil
    then show ?thesis by (simp add: match_here_one_trailing_mark)
  next
    case (Cons d ds)
    then have "match_here one_trailing_mark l (c # cs) = None"
      by (simp add: match_here_one_trailing_mark)
    with Cons.IH[of "c # l"] Cons show ?thesis by simp
  qed
qed

lemma replace_one_trailing_mark:
  "js_replace one_trailing_mark (\<lambda>m. []) s = one_mark_removed s"
  by (simp add: js_replace_def search_one_trailing_mark one_mark_removed_def)

lemma clean_part_one_mark: "clean_part part = trim (one_mark_removed (trim part))"
  by (simp add: clean_part_def replace_one_trailing_mark)

subsection \<open>The multi-waypoint shortcut\<close>

definition kept_waypoints :: "string \<Rightarrow> string list \<Rightarrow> string list" where
  \<comment> \<open>the first segment trimmed, unless the segment is empty; every later segment trimmed,
      without one trailing mark and trimmed again, unless that leaves nothing\<close>
  "kept_waypoints first others =
     (if first = [] then [] else [trim first]) @
     filter (\<lambda>waypoint. waypoint \<noteq> []) (map (\<lambda>part. trim (one_mark_removed (trim part))) others)"

lemma waypoints_of_parts_kept: "waypoints_of_parts (first # others) = kept_waypoints first others"
proof -
  have "clean_part = (\<lambda>part. trim (one_mark_removed (trim part)))"
    by (rule ext) (rule clean_part_one_mark)
  then show ?thesis by (simp add: kept_waypoints_def)
qed

lemma kept_waypoints_length: "length (kept_waypoints first others) \<le> Suc (length others)"
  by (auto simp: kept_waypoints_def intro: le_SucI)

lemma kept_waypoints_all:
  assumes "first \<noteq> []" "\<forall>part \<in> set others. trim (one_mark_removed (trim part)) \<noteq> []"
  shows "kept_waypoints first others = trim first # map (\<lambda>part. trim (one_mark_removed (trim part))) others"
proof -
  from assms(2)
  have "filter (\<lambda>waypoint. waypoint \<noteq> []) (map (\<lambda>part. trim (one_mark_removed (trim part))) others) =
        map (\<lambda>part. trim (one_mark_removed (trim part))) others"
    by (induction others) auto
  with assms(1) show ?thesis by (simp add: kept_waypoints_def)
qed

lemma kept_waypoints_trimmed: "waypoint \<in> set (kept_waypoints first others) \<Longrightarrow> trim waypoint = waypoint"
  by (auto simp: kept_waypoints_def trim_trim split: if_splits)

lemma multi_waypoint_shortcut_from:
  assumes "2 \<le> length (js_match_g (whole_word ''to'') inputText)"
    and "str_includes (toLowerCase inputText) ''from''"
    and "waypoints_after_from inputText = Some waypoints"
    and "2 \<le> length waypoints"
  shows "multi_waypoint_shortcut inputText = Some (Inr (multi_stop_route inputText waypoints))"
  using assms by (simp add: multi_waypoint_shortcut_def Let_def)

lemma multi_stop_route_props:
  "get_prop (multi_stop_route inputText waypoints) ''isRouteRequest'' = JBool True"
  "get_prop (multi_stop_route inputText waypoints) ''locations'' =
     JArr (map (\<lambda>waypoint. location (JStr waypoint) (JStr [])) waypoints)"
  "get_prop (multi_stop_route inputText waypoints) ''suggestedSequence'' = JArr (map JStr waypoints)"
  by (simp_all add: multi_stop_route_def Let_def route_of_waypoints_def get_prop_extraction_result)

lemma example_to_count:
  "js_match_g (whole_word ''to'') ''From New York to Los Angeles to Chicago'' = [''to'', ''to'']"
  by code_simp

lemma example_includes_from:
  "str_includes (toLowerCase ''From New York to Los Angeles to Chicago'') ''from''"
  by code_simp

lemma example_after_from:
  "js_split (whole_word ''from'') ''From New York to Los Angeles to Chicago'' =
     [[], '' New York to Los Angeles to Chicago'']"
  by code_simp

lemma example_segments:
  "js_split (whole_word ''to'') '' New York to Los Angeles to Chicago'' =
     ['' New York '', '' Los Angeles '', '' Chicago'']"
  by code_simp

lemma example_kept:
  "kept_waypoints '' New York '' ['' Los Angeles '', '' Chicago''] =
     [''New York'', ''Los Angeles'', ''Chicago'']"
  by code_simp

text \<open>
  C6. Let a text contain \<^verbatim>\<open>from\<close> and at least two whole words \<^verbatim>\<open>to\<close>.  Split it at the whole
  words \<^verbatim>\<open>from\<close> and take the second piece, the text between the first whole word \<^verbatim>\<open>from\<close> and the
  next one or the end; let it be non-empty, and split it at the whole words \<^verbatim>\<open>to\<close> into its
  segments.  The waypoints are the first segment trimmed, unless that segment is empty, and
  every later segment trimmed, without one trailing mark among \<^verbatim>\<open>,.!?;\<close> and trimmed again,
  unless that leaves nothing.  If they are two or more, the multi-waypoint shortcut of
  \<^verbatim>\<open>processNaturalLanguageInput\<close> returns a route with these waypoints as the names of its
  locations and as its suggested sequence.  No waypoint has surrounding blanks; there are at
  most as many waypoints as segments, and exactly as many if the first segment is not empty and
  no later segment is left empty by the cleaning.
\<close>

theorem C6_multi_waypoint_route:
  assumes "2 \<le> length (js_match_g (whole_word ''to'') inputText)"
    and "str_includes (toLowerCase inputText) ''from''"
    and "js_split (whole_word ''from'') inputText = beforeFrom # afterFrom # pieces"
    and "afterFrom \<noteq> []"
    and "js_split (whole_word ''to'') afterFrom = first # others"
    and "2 \<le> length (kept_waypoints first others)"
  shows "(\<exists>r. multi_waypoint_shortcut inputText = Some (Inr r) \<and>
              get_prop r ''isRouteRequest'' = JBool True \<and>
              get_prop r ''locations'' =
                JArr (map (\<lambda>waypoint. location (JStr waypoint) (JStr [])) (kept_waypoints first others)) \<and>
              get_prop r ''suggestedSequence'' = JArr (map JStr (kept_waypoints first others))) \<and>
         (\<forall>waypoint \<in> set (kept_waypoints first others). trim waypoint = waypoint) \<and>
         length (kept_waypoints first others) \<le> length (js_split (whole_word ''to'') afterFrom) \<and>
         (first \<noteq> [] \<and> (\<forall>part \<in> set others. trim (one_mark_removed (trim part)) \<noteq> []) \<longrightarrow>
            kept_waypoints first others =
              trim first # map (\<lambda>part. trim (one_mark_removed (trim part))) others \<and>
            length (kept_waypoints first others) = length (js_split (whole_word ''to'') afterFrom))"
proof (intro conjI impI ballI)
  from assms(3) have "nth_opt (js_split (whole_word ''from'') inputText) 1 = Some afterFrom"
    by (simp add: nth_opt_def)
  with assms(4,5) have "waypoints_after_from inputText = Some (kept_waypoints first others)"
    by (simp add: waypoints_after_from_def waypoints_of_parts_kept del: waypoints_of_parts.simps)
  from multi_waypoint_shortcut_from[OF assms(1,2) this assms(6)] multi_stop_route_props
  show "\<exists>r. multi_waypoint_shortcut inputText = Some (Inr r) \<and>
              get_prop r ''isRouteRequest'' = JBool True \<and>
              get_prop r ''locations'' =
                JArr (map (\<lambda>waypoint. location (JStr waypoint) (JStr [])) (kept_waypoints first others)) \<and>
              get_prop r ''suggestedSequence'' = JArr (map JStr (kept_waypoints first others))"
    by simp
next
  fix waypoint
  assume "waypoint \<in> set (kept_waypoints first others)"
  then show "trim waypoint = waypoint" by (rule kept_waypoints_trimmed)
next
  from kept_waypoints_length[of first others] assms(5)
  show "length (kept_waypoints first others) \<le> length (js_split (whole_word ''to'') afterFrom)"
    by simp
next
  assume all: "first \<noteq> [] \<and> (\<forall>part \<in> set others. trim (one_mark_removed (trim part)) \<noteq> [])"
  then show kept: "kept_waypoints first others =
              trim first # map (\<lambda>part. trim (one_mark_removed (trim part))) others"
    by (intro kept_waypoints_all) simp_all
  with assms(5)
  show "length (kept_waypoints first others) = length (js_split (whole_word ''to'') afterFrom)"
    by simp
qed

theorem C6_multi_waypoint_route_witness:
  "(\<exists>r. multi_waypoint_shortcut ''From New York to Los Angeles to Chicago'' = Some (Inr r) \<and>
        get_prop r ''isRouteRequest'' = JBool True \<and>
        get_prop r ''locations'' =
          JArr (map (\<lambda>waypoint. location (JStr waypoint) (JStr []))
                  [''New York'', ''Los Angeles'', ''Chicago'']) \<and>
        get_prop r ''suggestedSequence'' = JArr (map JStr [''New York'', ''Los Angeles'', ''Chicago''])) \<and>
   length [''New York'', ''Los Angeles'', ''Chicago''] =
     length ['' New York '', '' Los Angeles '', '' Chicago'']"
proof -
  have cleaned: "trim '' New York '' = ''New York''"
    "trim (one_mark_removed (trim '' Los Angeles '')) = ''Los Angeles''"
    "trim (one_mark_removed (trim '' Chicago'')) = ''Chicago''"
    by code_simp+
  have two: "2 \<le> length (kept_waypoints '' New York '' ['' Los Angeles '', '' Chicago''])"
    by (simp add: example_kept)
  have filled: "'' New York '' \<noteq> [] \<and>
      (\<forall>part \<in> set ['' Los Angeles '', '' Chicago'']. trim (one_mark_removed (trim part)) \<noteq> [])"
    by (simp add: cleaned)
  from C6_multi_waypoint_route[of "''From New York to Los Angeles to Chicago''" "[]"
      "'' New York to Los Angeles to Chicago''" "[]" "'' New York ''" "['' Los Angeles '', '' Chicago'']",
      OF _ example_includes_from example_after_from _ example_segments two] filled
  show ?thesis
    by (simp add: example_to_count example_kept example_segments cleaned)
qed

theorem C6_counterexample:
  "js_split (whole_word ''from'') ''from A to to B'' = [[], '' A to to B''] \<and>
   js_split (whole_word ''to'') '' A to to B'' = ['' A '', '' '', '' B''] \<and>
   multi_waypoint_shortcut ''from A to to B'' =
     Some (Inr (extraction_result True
                  [location (JStr ''A'') (JStr []), location (JStr ''B'') (JStr [])] ''driving''
                  (''Creating a driving route with multiple stops: A'' @ arrow @ ''B'')
                  [JStr ''A'', JStr ''B''])) \<and>
   multi_waypoint_shortcut ''from A to B!! to C'' =
     Some (Inr (extraction_result True
                  [location (JStr ''A'') (JStr []), location (JStr ''B!'') (JStr []),
                   location (JStr ''C'') (JStr [])] ''driving''
                  (''Creating a driving route with multiple stops: A'' @ arrow @ ''B!'' @ arrow @ ''C'')
                  [JStr ''A'', JStr ''B!'', JStr ''C'']))"
  by code_simp

section \<open>Texts of two words around the word \<^verbatim>\<open>to\<close>\<close>

subsection \<open>Runs of blanks\<close>

lemma rxm_ws:
  "rxm ic ws (l, r, cp) =
     (case r of [] \<Rightarrow> [] | c # cs \<Rightarrow> if is_space c then [(c # l, cs, cp)] else [])"
  by (simp add: ws_def cls_has_def split: list.splits)

lemma rxm_Star_ws_stop:
  assumes "r = [] \<or> \<not> is_space (hd r)"
  shows "rxm ic (Star ws) (l, r, cp) = [(l, r, cp)]"
  using assms by (subst rxm.simps(7)) (auto simp: rxm_ws split: list.splits)

lemma rxm_Plus_ws_none:
  assumes "r = [] \<or> \<not> is_space (hd r)"
  shows "rxm ic (Plus ws) (l, r, cp) = []"
  using assms by (auto simp: Plus_def rxm_ws split: list.splits)

lemma rxm_Plus_ws_one:
  assumes "is_space c" "cs = [] \<or> \<not> is_space (hd cs)"
  shows "rxm ic (Plus ws) (l, c # cs, cp) = [(c # l, cs, cp)]"
  using assms by (simp add: Plus_def rxm_ws rxm_Star_ws_stop)

lemma rxm_Star_ws_mem:
  "(l', r', cp') \<in> set (rxm ic (Star ws) (l, r, cp)) \<Longrightarrow>
   \<exists>sp. r = sp @ r' \<and> (\<forall>c \<in> set sp. is_space c)"
proof (induction r arbitrary: l)
  case Nil
  then show ?case by (simp add: rxm_Star_ws_stop)
next
  case (Cons c cs)
  show ?case
  proof (cases "is_space c")
    case False
    with Cons.prems show ?thesis by (simp add: rxm_Star_ws_stop)
  next
    case True
    from Cons.prems True consider "(l', r', cp') \<in> set (rxm ic (Star ws) (c # l, cs, cp))"
      | "(l', r', cp') = (l, c # cs, cp)"
      by (subst (asm) rxm.simps(7)) (auto simp: rxm_ws)
    then show ?thesis
    proof cases
      case 1
      from Cons.IH[OF 1] obtain sp where "cs = sp @ r'" "\<forall>c \<in> set sp. is_space c" by blast
      with True have "c # cs = (c # sp) @ r' \<and> (\<forall>c \<in> set (c # sp). is_space c)" by simp
      then show ?thesis by blast
    next
      case 2
      then have "c # cs = [] @ r'" by simp
      then show ?thesis by fastforce
    qed
  qed
qed

lemma rxm_Plus_ws_mem:
  assumes "(l', r', cp') \<in> set (rxm ic (Plus ws) (l, r, cp))"
  shows "\<exists>c sp. r = c # sp @ r' \<and> is_space c \<and> (\<forall>c \<in> set sp. is_space c)"
proof -
  from assms obtain c cs where r: "r = c # cs" "is_space c"
    and "(l', r', cp') \<in> set (rxm ic (Star ws) (c # l, cs, cp))"
    by (auto simp: Plus_def rxm_ws split: list.splits if_splits)
  from rxm_Star_ws_mem[OF this(3)] r show ?thesis by auto
qed

subsection \<open>Where a search finds nothing\<close>

lemma search_skip:
  assumes "\<And>u v. X = u @ v \<Longrightarrow> v \<noteq> [] \<Longrightarrow> match_here re (rev u @ l) (v @ r) = None"
  shows "search re l (X @ r) = search re (rev X @ l) r"
  using assms
proof (induction X arbitrary: l)
  case Nil
  show ?case by simp
next
  case (Cons c cs)
  from Cons.prems[of "[]" "c # cs"] have here: "match_here re l (c # cs @ r) = None" by simp
  have "search re (c # l) (cs @ r) = search re (rev cs @ c # l) r"
  proof (rule Cons.IH)
    fix u v
    assume "cs = u @ v" "v \<noteq> []"
    with Cons.prems[of "c # u" v] show "match_here re (rev u @ c # l) (v @ r) = None" by simp
  qed
  with here show ?case by simp
qed

lemma search_None:
  assumes "\<And>u v. r = u @ v \<Longrightarrow> match_here re (rev u @ l) v = None"
  shows "search re l r = None"
  using assms
proof (induction r arbitrary: l)
  case Nil
  then show ?case by simp
next
  case (Cons c cs)
  from Cons.prems[of "[]" "c # cs"] have here: "match_here re l (c # cs) = None" by simp
  have "search re (c # l) cs = None"
  proof (rule Cons.IH)
    fix u v
    assume "cs = u @ v"
    with Cons.prems[of "c # u" v] show "match_here re (rev u @ c # l) v = None" by simp
  qed
  with here show ?case by simp
qed

lemma match_here_None: "rxm (icase re) (pat re) (l, r, replicate (Suc (ngroups re)) None) = [] \<Longrightarrow>
  match_here re l r = None"
  by (simp add: match_here_def)

subsection \<open>Trimming and collapsing blanks change nothing\<close>

lemma trim_no_outer_blanks:
  assumes "s \<noteq> []" "\<not> is_space (hd s)" "\<not> is_space (last s)"
  shows "trim s = s"
proof -
  from assms(1,2) have start: "trimStart s = s"
    by (cases s) (simp_all add: trimStart_def)
  from assms(1,3) have "dropWhile is_space (rev s) = rev s"
    by (cases "rev s") (simp_all add: hd_rev)
  then have "trimEnd s = s" by (simp add: trimEnd_def)
  with start show ?thesis by (simp add: trim_def)
qed

lemma match_here_ws_run_none:
  assumes "r = [] \<or> \<not> is_space (hd r)"
  shows "match_here ws_run l r = None"
  using assms by (simp add: match_here_def ws_run_def rxm_Plus_ws_none)

lemma match_here_ws_run_one:
  assumes "is_space c" "cs = [] \<or> \<not> is_space (hd cs)"
  shows "match_here ws_run l (c # cs) =
           Some \<lparr>before = rev l, matched = [c], groups = [None], after = cs\<rparr>"
  using assms by (simp add: match_here_def ws_run_def rxm_Plus_ws_one)

lemma search_ws_run_skip:
  assumes "\<forall>c \<in> set X. \<not> is_space c"
  shows "search ws_run l (X @ r) = search ws_run (rev X @ l) r"
proof (rule search_skip)
  fix u v
  assume "X = u @ v" "v \<noteq> []"
  with assms have "\<not> is_space (hd (v @ r))" by (cases v) auto
  then show "match_here ws_run (rev u @ l) (v @ r) = None"
    by (simp add: match_here_ws_run_none)
qed

lemma replace_ws_run_skip:
  assumes "\<forall>c \<in> set X. \<not> is_space c"
  shows "replace_from ws_run f l (X @ r) = X @ replace_from ws_run f (rev X @ l) r"
proof (cases "search ws_run (rev X @ l) r")
  case None
  with search_ws_run_skip[OF assms, of l r] show ?thesis
    by (subst replace_from.simps, subst (2) replace_from.simps) simp
next
  case (Some m)
  from search_shape[OF Some] obtain u where "before m = rev (rev X @ l) @ u" by blast
  then have before: "before m = rev l @ X @ u" by simp
  then have "drop (length l) (before m) = X @ u"
    and "drop (length (rev X @ l)) (before m) = u"
    by simp_all
  with Some search_ws_run_skip[OF assms, of l r] show ?thesis
    by (subst replace_from.simps, subst (3) replace_from.simps) simp
qed

lemma replace_ws_run_one:
  assumes "is_space c" "cs = [] \<or> \<not> is_space (hd cs)"
  shows "replace_from ws_run f l (c # cs) =
           f \<lparr>before = rev l, matched = [c], groups = [None], after = cs\<rparr> @
           replace_from ws_run f (c # l) cs"
  using assms by (subst replace_from.simps) (simp add: match_here_ws_run_one)

lemma replace_ws_run_Nil: "replace_from ws_run f l [] = []"
  by (subst replace_from.simps) (simp add: match_here_ws_run_none)

lemma space_char [simp]: "is_space CHR '' ''"
  by (simp add: is_space_code)

lemma to_chars_not_space [simp]: "\<not> is_space CHR ''t''" "\<not> is_space CHR ''o''"
  by (simp_all add: is_space_code)

lemma collapse_two_words:
  assumes "\<forall>c \<in> set X. \<not> is_space c" "\<forall>c \<in> set Y. \<not> is_space c" "Y \<noteq> []"
  shows "js_replace_g ws_run (\<lambda>m. '' '') (X @ '' to '' @ Y) = X @ '' to '' @ Y"
proof -
  let ?f = "\<lambda>m :: rmatch. '' ''"
  from assms(2,3) have hdY: "\<not> is_space (hd Y)" by (cases Y) auto
  have "replace_from ws_run ?f [] (X @ '' to '' @ Y) =
        X @ replace_from ws_run ?f (rev X @ []) ('' to '' @ Y)"
    by (rule replace_ws_run_skip[OF assms(1)])
  also have "replace_from ws_run ?f (rev X @ []) ('' to '' @ Y) =
        '' '' @ replace_from ws_run ?f (CHR '' '' # rev X @ []) (''to'' @ '' '' @ Y)"
    using replace_ws_run_one[of "CHR '' ''" "''to '' @ Y" ?f "rev X @ []"] by simp
  also have "replace_from ws_run ?f (CHR '' '' # rev X @ []) (''to'' @ '' '' @ Y) =
        ''to'' @ replace_from ws_run ?f (rev ''to'' @ CHR '' '' # rev X @ []) ('' '' @ Y)"
    by (rule replace_ws_run_skip) simp
  also have "replace_from ws_run ?f (rev ''to'' @ CHR '' '' # rev X @ []) ('' '' @ Y) =
        '' '' @ replace_from ws_run ?f (CHR '' '' # rev ''to'' @ CHR '' '' # rev X @ []) (Y @ [])"
    using replace_ws_run_one[of "CHR '' ''" Y ?f "rev ''to'' @ CHR '' '' # rev X @ []"] hdY by simp
  also have "replace_from ws_run ?f (CHR '' '' # rev ''to'' @ CHR '' '' # rev X @ []) (Y @ []) =
        Y @ replace_from ws_run ?f (rev Y @ CHR '' '' # rev ''to'' @ CHR '' '' # rev X @ []) []"
    by (rule replace_ws_run_skip[OF assms(2)])
  finally show ?thesis
    by (simp add: js_replace_g_def replace_ws_run_Nil)
qed

subsection \<open>The route pattern needs more blanks than the text has\<close>

lemma first_blank_unique:
  assumes "a @ s # r = a' @ s' # r'"
    and "\<forall>c \<in> set a. \<not> is_space c" "\<forall>c \<in> set a'. \<not> is_space c" "is_space s" "is_space s'"
  shows "a = a' \<and> r = r'"
  using assms
proof (induction a arbitrary: a')
  case Nil
  then show ?case by (cases a') auto
next
  case (Cons c a)
  then show ?case by (cases a') auto
qed

lemma lit_match_no_blank:
  assumes "lit_match ic w l r = Some (l', r')" "\<forall>c \<in> set w. \<not> is_space c"
  shows "\<exists>a. r = a @ r' \<and> length a = length w \<and> (\<forall>c \<in> set a. \<not> is_space c)"
proof -
  from lit_match_shape[OF assms(1)] obtain a where a: "r = a @ r'" "length a = length w" by blast
  then have "take (length r - length r') r = a" by simp
  with lit_match_lower[OF assms(1)] have "map lower_char a = map lower_char w" by simp
  then have "is_space ` set (map lower_char a) = is_space ` set (map lower_char w)" by simp
  then have "is_space ` set a = is_space ` set w"
    by (simp add: image_image)
  with assms(2) have "\<forall>c \<in> set a. \<not> is_space c" by (auto simp: image_iff) 
  with a show ?thesis by blast
qed

lemma nonempty_mem: "xs \<noteq> [] \<Longrightarrow> \<exists>x. x \<in> set xs"
  by (cases xs) auto

lemma word_blank_word:
  assumes "rxm ic (Seq (Lit w) (Seq (Plus ws) (Seq (Lit (p # ps)) rest))) (l, v, cp) \<noteq> []"
    and "\<forall>c \<in> set w. \<not> is_space c"
  shows "\<exists>a s sp c b. v = a @ s # sp @ c # b \<and> length a = length w \<and>
           (\<forall>c \<in> set a. \<not> is_space c) \<and> is_space s \<and> (\<forall>c \<in> set sp. is_space c) \<and>
           char_eq ic p c"
proof -
  from nonempty_mem[OF assms(1)] obtain s' where
    "s' \<in> set (rxm ic (Seq (Lit w) (Seq (Plus ws) (Seq (Lit (p # ps)) rest))) (l, v, cp))"
    by blast
  then obtain t1 t2 t3 where t1: "t1 \<in> set (rxm ic (Lit w) (l, v, cp))"
    and t2: "t2 \<in> set (rxm ic (Plus ws) t1)"
    and t3: "t3 \<in> set (rxm ic (Lit (p # ps)) t2)"
    unfolding rxm_Seq_mem by blast
  from t1 obtain l1 v1 where lit: "lit_match ic w l v = Some (l1, v1)" and t1': "t1 = (l1, v1, cp)"
    by (cases "lit_match ic w l v") auto
  from lit_match_no_blank[OF lit assms(2)] obtain a where
    a: "v = a @ v1" "length a = length w" "\<forall>c \<in> set a. \<not> is_space c" by blast
  obtain l2 v2 cp2 where t2': "t2 = (l2, v2, cp2)" by (cases t2)
  from rxm_Plus_ws_mem[OF t2[unfolded t1' t2']] obtain s sp where
    sp: "v1 = s # sp @ v2" "is_space s" "\<forall>c \<in> set sp. is_space c" by blast
  from t3 t2' obtain c b where "v2 = c # b" "char_eq ic p c"
    by (cases v2) (auto split: if_splits option.splits)
  with a sp show ?thesis by blast
qed

lemma route_chars_not_space: "\<forall>c \<in> set ''route''. \<not> is_space c"
  by (simp add: is_space_code)

lemma f_is_not_t: "\<not> char_eq True CHR ''f'' CHR ''t''"
  by (simp add: char_eq_def upper_ascii_code)

lemma routePattern_here:
  assumes X: "\<forall>c \<in> set X. \<not> is_space c" and Y: "\<forall>c \<in> set Y. \<not> is_space c"
    and split: "X @ '' to '' @ Y = u @ v"
  shows "rxm (icase routePattern) (pat routePattern) (l, v, cp) = []"
proof (rule ccontr)
  assume "rxm (icase routePattern) (pat routePattern) (l, v, cp) \<noteq> []"
  then have "rxm True (Seq (Lit ''route'') (Seq (Plus ws) (Seq (Lit ''from'')
               (seqs [Plus ws, Grp 1 (PlusL letters_ws), Plus ws, Lit ''to'', Plus ws,
                      Grp 2 (Plus letters_ws), alts [ws, Eol]])))) (l, v, cp) \<noteq> []"
    by (simp add: routePattern_def del: rxm.simps)
  from word_blank_word[OF this route_chars_not_space] obtain a s sp c b where
    v: "v = a @ s # sp @ c # b" and len: "length a = 5"
    and a: "\<forall>c \<in> set a. \<not> is_space c" and s: "is_space s"
    and sp: "\<forall>c \<in> set sp. is_space c" and c: "char_eq True CHR ''f'' c"
    by auto
  from split obtain w where "(X = u @ w \<and> w @ '' to '' @ Y = v) \<or> (X @ w = u \<and> '' to '' @ Y = w @ v)"
    unfolding append_eq_append_conv2 by blast
  then consider (inside) w where "X = u @ w" "v = w @ CHR '' '' # (''to '' @ Y)"
    | (whole) "v = [] @ CHR '' '' # (''to '' @ Y)"
    | (word) "v = ''to'' @ CHR '' '' # Y"
    | (letter) "v = ''o'' @ CHR '' '' # Y"
    | (blank) "v = [] @ CHR '' '' # Y"
    | (last) w where "Y = w @ v"
    by (auto simp: Cons_eq_append_conv)
  then show False
  proof cases
    case inside
    from inside(1) X have "\<forall>c \<in> set w. \<not> is_space c" by auto
    from first_blank_unique[OF v[unfolded inside(2)] this a space_char s]
    have rest: "''to '' @ Y = sp @ c # b" by simp
    show False
    proof (cases sp)
      case Nil
      with rest c f_is_not_t show False by simp
    next
      case (Cons s1 sp')
      with rest sp have "is_space CHR ''t''" by auto
      then show False by simp
    qed
  next
    case whole
    from first_blank_unique[OF v[unfolded whole] _ a space_char s] len show False by auto
  next
    case word
    from first_blank_unique[OF v[unfolded word] _ a space_char s] len show False by auto
  next
    case letter
    from first_blank_unique[OF v[unfolded letter] _ a space_char s] len show False by auto
  next
    case blank
    from first_blank_unique[OF v[unfolded blank] _ a space_char s] len show False by auto
  next
    case last
    with v have "s \<in> set Y" by simp
    with Y s show False by blast
  qed
qed

lemma routePattern_no_match:
  assumes "\<forall>c \<in> set X. \<not> is_space c" "\<forall>c \<in> set Y. \<not> is_space c"
  shows "js_match routePattern (X @ '' to '' @ Y) = None"
  unfolding js_match_def
proof (rule search_None)
  fix u v
  assume "X @ '' to '' @ Y = u @ v"
  from routePattern_here[OF assms this]
  show "match_here routePattern (rev u @ []) v = None"
    by (intro match_here_None)
qed

subsection \<open>Splitting at the word \<^verbatim>\<open>to\<close>\<close>

lemma sep_word_none:
  assumes "r = [] \<or> \<not> is_space (hd r)"
  shows "match_here (sep_word w) l r = None"
  using assms by (simp add: match_here_def sep_word_def rxm_Plus_ws_none del: rxm.simps(2))

lemma sep_to_here:
  assumes "Y \<noteq> []" "\<not> is_space (hd Y)"
  shows "match_here (sep_word ''to'') l ('' to '' @ Y) =
           Some \<lparr>before = rev l, matched = '' to '', groups = [None], after = Y\<rparr>"
proof -
  have first: "rxm True (Plus ws) (l, '' to '' @ Y, [None]) = [(CHR '' '' # l, ''to '' @ Y, [None])]"
    using rxm_Plus_ws_one[of "CHR '' ''" "''to '' @ Y" True l "[None]"] by simp
  have word: "rxm True (Lit ''to'') (CHR '' '' # l, ''to '' @ Y, [None]) =
                [(CHR ''o'' # CHR ''t'' # CHR '' '' # l, '' '' @ Y, [None])]"
    by (simp add: char_eq_def)
  have second: "rxm True (Plus ws) (CHR ''o'' # CHR ''t'' # CHR '' '' # l, '' '' @ Y, [None]) =
                  [(CHR '' '' # CHR ''o'' # CHR ''t'' # CHR '' '' # l, Y, [None])]"
    using rxm_Plus_ws_one[of "CHR '' ''" Y True "CHR ''o'' # CHR ''t'' # CHR '' '' # l" "[None]"] assms
    by simp
  have "rxm True (Seq (Plus ws) (Seq (Lit ''to'') (Plus ws))) (l, '' to '' @ Y, [None]) =
          [(CHR '' '' # CHR ''o'' # CHR ''t'' # CHR '' '' # l, Y, [None])]"
    using first word second by (simp del: rxm.simps add: rxm.simps(5))
  then show ?thesis
    by (simp add: match_here_def sep_word_def del: rxm.simps)
qed

lemma search_sep_word_skip:
  assumes "\<forall>c \<in> set X. \<not> is_space c"
  shows "search (sep_word w) l (X @ r) = search (sep_word w) (rev X @ l) r"
proof (rule search_skip)
  fix u v
  assume "X = u @ v" "v \<noteq> []"
  with assms have "\<not> is_space (hd (v @ r))" by (cases v) auto
  then show "match_here (sep_word w) (rev u @ l) (v @ r) = None"
    by (simp add: sep_word_none)
qed

lemma test_sep_to:
  assumes "\<forall>c \<in> set X. \<not> is_space c" "Y \<noteq> []" "\<not> is_space (hd Y)"
  shows "js_test (sep_word ''to'') (X @ '' to '' @ Y)"
proof -
  have "search (sep_word ''to'') [] (X @ '' to '' @ Y) = search (sep_word ''to'') (rev X @ []) ('' to '' @ Y)"
    by (rule search_sep_word_skip[OF assms(1)])
  also have "\<dots> \<noteq> None"
    using sep_to_here[OF assms(2,3), of "rev X @ []"] by simp
  finally show ?thesis by (simp add: js_test_def)
qed

lemma split_loop_sep_word_skip:
  assumes "\<forall>c \<in> set X. \<not> is_space c"
  shows "split_loop (sep_word w) lp seg (X @ r) = split_loop (sep_word w) lp (rev X @ seg) r"
  using assms
proof (induction X arbitrary: seg)
  case Nil
  show ?case by simp
next
  case (Cons c cs)
  then have "match_here (sep_word w) (seg @ lp) (c # cs @ r) = None"
    by (simp add: sep_word_none)
  with Cons show ?case by simp
qed

lemma split_two_words:
  assumes "X \<noteq> []" "\<forall>c \<in> set X. \<not> is_space c" "Y \<noteq> []" "\<forall>c \<in> set Y. \<not> is_space c"
  shows "js_split (sep_word ''to'') (X @ '' to '' @ Y) = [X, Y]"
proof -
  from assms(3,4) have hdY: "\<not> is_space (hd Y)" by (cases Y) auto
  have "split_loop (sep_word ''to'') [] [] (X @ '' to '' @ Y) =
        split_loop (sep_word ''to'') [] (rev X @ []) ('' to '' @ Y)"
    by (rule split_loop_sep_word_skip[OF assms(2)])
  also have "\<dots> = X # split_loop (sep_word ''to'') (rev '' to '' @ rev X @ []) [] (Y @ [])"
    using sep_to_here[OF assms(3) hdY, of "(rev X @ []) @ []"] by simp
  also have "split_loop (sep_word ''to'') (rev '' to '' @ rev X @ []) [] (Y @ []) =
             split_loop (sep_word ''to'') (rev '' to '' @ rev X @ []) (rev Y @ []) []"
    by (rule split_loop_sep_word_skip[OF assms(4)])
  finally show ?thesis using assms(1) by (simp add: js_split_def)
qed

subsection \<open>A word without blanks keeps its beginning\<close>

lemma needs_blank:
  assumes "s' \<in> set (rxm ic (Seq a (Seq b (Plus ws))) (l, v, cp))"
  shows "\<exists>c \<in> set v. is_space c"
proof -
  from assms obtain t1 t2 where t1: "t1 \<in> set (rxm ic a (l, v, cp))"
    and t2: "t2 \<in> set (rxm ic b t1)" and s': "s' \<in> set (rxm ic (Plus ws) t2)"
    unfolding rxm_Seq_mem by blast
  obtain l1 v1 cp1 where t1': "t1 = (l1, v1, cp1)" by (cases t1)
  obtain l2 v2 cp2 where t2': "t2 = (l2, v2, cp2)" by (cases t2)
  obtain l3 v3 cp3 where s'': "s' = (l3, v3, cp3)" by (cases s')
  from rxm_suffix[OF t1[unfolded t1']] obtain u1 where "v = u1 @ v1" by blast
  moreover from rxm_suffix[OF t2[unfolded t1' t2']] obtain u2 where "v1 = u2 @ v2" by blast
  moreover from rxm_Plus_ws_mem[OF s'[unfolded t2' s'']] obtain c sp where
    "v2 = c # sp @ v3" "is_space c" by blast
  then have "c \<in> set v2" "is_space c" by simp_all
  ultimately show ?thesis by auto
qed

lemma leading_preposition_kept:
  assumes "\<forall>c \<in> set X. \<not> is_space c"
  shows "js_replace leading_preposition f X = X"
proof -
  have "search leading_preposition [] X = None"
  proof (rule search_None)
    fix u v
    assume X: "X = u @ v"
    have "rxm (icase leading_preposition) (pat leading_preposition)
            (rev u @ [], v, replicate (Suc (ngroups leading_preposition)) None) = []"
    proof (rule ccontr)
      assume "rxm (icase leading_preposition) (pat leading_preposition)
                (rev u @ [], v, replicate (Suc (ngroups leading_preposition)) None) \<noteq> []"
      from nonempty_mem[OF this] obtain s' where
        "s' \<in> set (rxm (icase leading_preposition) (pat leading_preposition)
                     (rev u @ [], v, replicate (Suc (ngroups leading_preposition)) None))"
        by blast
      then have "s' \<in> set (rxm True
          (Seq Bol (Seq (Grp 1 (word_alts [''from'', ''to'', ''in'', ''at'', ''starting'', ''ending'',
                                           ''beginning'', ''route'']))
                        (Plus ws)))
          (rev u @ [], v, replicate (Suc (ngroups leading_preposition)) None))"
        by (simp add: leading_preposition_def del: rxm.simps)
      from needs_blank[OF this] X assms show False by auto
    qed
    then show "match_here leading_preposition (rev u @ []) v = None"
      by (rule match_here_None)
  qed
  then show ?thesis by (simp add: js_replace_def)
qed

lemma sep_to_not_between: "sep_word ''to'' \<noteq> sep_word ''between''"
  by (simp add: sep_word_def)

lemma separators_two_words:
  assumes "X \<noteq> []" "\<forall>c \<in> set X. \<not> is_space c" "Y \<noteq> []" "\<forall>c \<in> set Y. \<not> is_space c"
  shows "try_separators separators (X @ '' to '' @ Y) = Some (Inr [X, Y])"
proof -
  from assms(1,2) have X: "\<not> is_space (hd X)" "\<not> is_space (last X)" by auto
  from assms(3,4) have Y: "\<not> is_space (hd Y)" "\<not> is_space (last Y)" by auto
  have trimmed: "trim X = X" "trim Y = Y"
    using trim_no_outer_blanks[OF assms(1) X] trim_no_outer_blanks[OF assms(3) Y] by simp_all
  have tested: "js_test (sep_word ''to'') (X @ '' to '' @ Y)"
    by (rule test_sep_to[OF assms(2,3) Y(1)])
  have parts: "js_split (sep_word ''to'') (X @ '' to '' @ Y) = [X, Y]"
    by (rule split_two_words[OF assms])
  have "try_separators (sep_word ''to'' # [sep_word ''and'', sep_comma, sep_word ''through'',
                                            sep_word ''via'', sep_word ''between''])
          (X @ '' to '' @ Y) = Some (Inr [X, Y])"
    unfolding try_separators.simps
    using tested parts assms(1,3)
    by (simp add: sep_to_not_between leading_preposition_kept[OF assms(2)]
        leading_preposition_kept[OF assms(4)] trimmed Let_def)
  then show ?thesis by (simp add: separators_def)
qed

lemma nlp_two_words:
  assumes "X \<noteq> []" "\<forall>c \<in> set X. \<not> is_space c" "Y \<noteq> []" "\<forall>c \<in> set Y. \<not> is_space c"
  shows "nlp_extractLocationsWithRegex (X @ '' to '' @ Y) =
           Inr (nlp_result [X, Y] (nlp_preferences (X @ '' to '' @ Y)))"
proof -
  from assms(1,2) have "\<not> is_space (hd (X @ '' to '' @ Y))" by (cases X) auto
  moreover from assms(3,4) have "\<not> is_space (last (X @ '' to '' @ Y))" by auto
  ultimately have trimmed: "trim (X @ '' to '' @ Y) = X @ '' to '' @ Y"
    by (intro trim_no_outer_blanks) simp_all
  have normalized: "js_replace_g ws_run (\<lambda>m. '' '') (trim (X @ '' to '' @ Y)) = X @ '' to '' @ Y"
    unfolding trimmed by (rule collapse_two_words[OF assms(2,4,3)])
  show ?thesis
    unfolding nlp_extractLocationsWithRegex_def Let_def normalized
    using routePattern_no_match[OF assms(2,4)] separators_two_words[OF assms]
    by (simp add: nlp_preferences_def)
qed

subsection \<open>Blanks around the words\<close>






subsection \<open>The two words as locations\<close>






end
